theory Spec2Isabelle
  imports Main
begin

section \<open>Strings and character classes\<close>

text \<open>
  A JavaScript string is a sequence of UTF-16 code units. The model uses \<^typ>\<open>string\<close>
  and reads each \<^typ>\<open>char\<close> as the code unit with the same number (U+0000 to U+00FF).
  On that range the classes of the regular expressions of the source are:
  \<^item> \<^verbatim>\<open>\w\<close>: the letters A-Z and a-z, the digits and the underscore;
  \<^item> \<^verbatim>\<open>\s\<close>: tab, line feed, vertical tab, form feed, carriage return, space and
    the no-break space U+00A0; \<^verbatim>\<open>trim()\<close> removes the same set;
  \<^item> the line terminators, which \<^verbatim>\<open>.\<close> does not match: line feed and carriage return.
\<close>

definition code_unit :: "char \<Rightarrow> nat" where
  "code_unit c = of_char c"

definition is_word_char :: "char \<Rightarrow> bool" where
  "is_word_char c =
     (let n = code_unit c
      in (65 \<le> n \<and> n \<le> 90) \<or> (97 \<le> n \<and> n \<le> 122) \<or> (48 \<le> n \<and> n \<le> 57) \<or> n = 95)"

definition is_space_char :: "char \<Rightarrow> bool" where
  "is_space_char c = (let n = code_unit c in (9 \<le> n \<and> n \<le> 13) \<or> n = 32 \<or> n = 160)"

definition LF :: char where
  "LF = CHR 0x0A"

definition CR :: char where
  "CR = CHR 0x0D"

definition is_line_terminator :: "char \<Rightarrow> bool" where
  "is_line_terminator c = (c = LF \<or> c = CR)"

text \<open>
  \<^verbatim>\<open>toLowerCase()\<close> on U+0000 to U+00FF: A-Z and the capital letters U+00C0 to U+00DE
  (without the multiplication sign U+00D7) move up by 32, which sets bit 5 of the code unit.
\<close>

definition is_upper_char :: "char \<Rightarrow> bool" where
  "is_upper_char c =
     (let n = code_unit c
      in (65 \<le> n \<and> n \<le> 90) \<or> (192 \<le> n \<and> n \<le> 222 \<and> n \<noteq> 215))"

definition lower_char :: "char \<Rightarrow> char" where
  "lower_char c =
     (if is_upper_char c
      then (case c of Char b0 b1 b2 b3 b4 b5 b6 b7 \<Rightarrow> Char b0 b1 b2 b3 b4 True b6 b7)
      else c)"

definition toLowerCase :: "string \<Rightarrow> string" where
  "toLowerCase s = map lower_char s"

definition trim :: "string \<Rightarrow> string" where
  "trim s = rev (dropWhile is_space_char (rev (dropWhile is_space_char s)))"

fun startsWith :: "'a list \<Rightarrow> 'a list \<Rightarrow> bool" where
  "startsWith s [] = True"
| "startsWith [] (p # ps) = False"
| "startsWith (c # cs) (p # ps) = (c = p \<and> startsWith cs ps)"

text \<open>\<^verbatim>\<open>s.includes(sub)\<close>: \<open>sub\<close> occurs in \<open>s\<close> at some position.\<close>

fun str_includes :: "'a list \<Rightarrow> 'a list \<Rightarrow> bool" where
  "str_includes [] sub = (sub = [])"
| "str_includes (c # cs) sub = (startsWith (c # cs) sub \<or> str_includes cs sub)"

text \<open>
  The two expressions that are run against a whole document, the one for highlights and the
  one for cue lines, depend on all four line terminators of the language: line feed,
  carriage return, U+2028 and U+2029. They are modelled on the code units themselves, as
  numbers below 65536, which covers every JavaScript string. \<open>units_of\<close> gives the code units
  of a text of the first model, \<open>text_of\<close> the text of code units below 256.
\<close>

definition units_of :: "string \<Rightarrow> nat list" where
  "units_of s = map code_unit s"

definition text_of :: "nat list \<Rightarrow> string" where
  "text_of us = map char_of us"

definition is_terminator_unit :: "nat \<Rightarrow> bool" where
  "is_terminator_unit u = (u = 10 \<or> u = 13 \<or> u = 8232 \<or> u = 8233)"

text \<open>The code units of the equals sign, the colon and the line feed.\<close>

definition EQUALS :: nat where
  "EQUALS = 61"

definition COLON :: nat where
  "COLON = 58"

definition LINE_FEED :: nat where
  "LINE_FEED = 10"

section \<open>The similarity check of the reconciler\<close>

text \<open>
  \<^verbatim>\<open>AnkiConnectService.isContentSimilar\<close>. Its local function \<^verbatim>\<open>normalize\<close> is
  \<^verbatim>\<open>str.toLowerCase().replace(/[^\w\s]/g, ' ').replace(/\s+/g, ' ').trim()\<close>:
  every character that is neither a word character nor whitespace becomes a space, every
  run of whitespace becomes one space, and the ends are trimmed.
\<close>

definition replace_non_word :: "string \<Rightarrow> string" where
  "replace_non_word s = map (\<lambda>c. if is_word_char c \<or> is_space_char c then c else CHR '' '') s"

function collapse_ws :: "string \<Rightarrow> string" where
  "collapse_ws [] = []"
| "collapse_ws (c # cs) =
     (if is_space_char c then CHR '' '' # collapse_ws (dropWhile is_space_char cs)
      else c # collapse_ws cs)"
  by pat_completeness auto
termination
  by (relation "measure length") (auto simp: length_dropWhile_le less_Suc_eq_le)

definition normalize :: "string \<Rightarrow> string" where
  "normalize str = trim (collapse_ws (replace_non_word (toLowerCase str)))"

definition isContentSimilar :: "string \<Rightarrow> string \<Rightarrow> bool" where
  "isContentSimilar content1 content2 =
     (let norm1 = normalize content1;
          norm2 = normalize content2
      in if norm1 = norm2 then True
         else if length norm1 > 20 \<and> length norm2 > 20
              then str_includes norm1 norm2 \<or> str_includes norm2 norm1
              else False)"

text \<open>
  The classification that the claims state. A text is read as its words: the maximal runs of
  the letters a to z, digits and underscores of the lower-cased text; every other character,
  whitespace, punctuation or letter outside a to z, only separates words. \<open>runs P s\<close> are the maximal non-empty runs of
  elements of \<open>s\<close> that satisfy \<open>P\<close>, \<open>join_words\<close> puts one space between
  consecutive words, and \<open>lower_spec\<close> is lower case by arithmetic on the code unit.
\<close>

definition contains_text :: "'a list \<Rightarrow> 'a list \<Rightarrow> bool" where
  "contains_text s sub = (\<exists>before after. s = before @ sub @ after)"

function runs :: "('a \<Rightarrow> bool) \<Rightarrow> 'a list \<Rightarrow> 'a list list" where
  "runs P s =
     (case dropWhile (\<lambda>x. \<not> P x) s of
        [] \<Rightarrow> []
      | c # cs \<Rightarrow> takeWhile P (c # cs) # runs P (dropWhile P cs))"
  by pat_completeness auto
termination
proof (relation "measure (\<lambda>(P, s). length s)")
  show "wf (measure (\<lambda>(P, s). length s))" by simp
next
  fix P :: "'a \<Rightarrow> bool" and s c cs
  assume "dropWhile (\<lambda>x. \<not> P x) s = c # cs"
  then have "Suc (length cs) \<le> length s"
    by (metis length_dropWhile_le length_Cons)
  moreover have "length (dropWhile P cs) \<le> length cs" by (rule length_dropWhile_le)
  ultimately show "((P, dropWhile P cs), (P, s)) \<in> measure (\<lambda>(P, s). length s)" by simp
qed

declare runs.simps [simp del]

fun join_words :: "string list \<Rightarrow> string" where
  "join_words [] = []"
| "join_words [w] = w"
| "join_words (w # v # ws) = w @ CHR '' '' # join_words (v # ws)"

definition lower_spec :: "char \<Rightarrow> char" where
  "lower_spec c =
     (let n = code_unit c
      in if (65 \<le> n \<and> n \<le> 90) \<or> (192 \<le> n \<and> n \<le> 222 \<and> n \<noteq> 215)
         then char_of (n + 32) else c)"

definition words_text :: "string \<Rightarrow> string" where
  "words_text s = join_words (runs is_word_char (map lower_spec s))"

text \<open>
  Two texts are duplicates when their words are the same, or when the words of one, joined
  by single spaces, occur in those of the other and both are longer than 20 characters.
\<close>

definition duplicate_words_spec :: "string \<Rightarrow> string \<Rightarrow> bool" where
  "duplicate_words_spec a b =
     (words_text a = words_text b \<or>
      ((contains_text (words_text a) (words_text b) \<or> contains_text (words_text b) (words_text a)) \<and>
       length (words_text a) > 20 \<and> length (words_text b) > 20))"

text \<open>
  The normalization in the words of the specification: lower case, punctuation stripped,
  whitespace collapsed. Punctuation is read as every character that is neither a letter,
  digit, underscore nor whitespace; stripping removes it; collapsing leaves the runs of
  characters other than whitespace, separated by one space.
\<close>

definition punctuation_spec :: "char \<Rightarrow> bool" where
  "punctuation_spec c = (\<not> is_word_char c \<and> \<not> is_space_char c)"

definition normalize_stated :: "string \<Rightarrow> string" where
  "normalize_stated s =
     join_words (runs (\<lambda>c. \<not> is_space_char c)
       (filter (\<lambda>c. \<not> punctuation_spec c) (map lower_spec s)))"

definition duplicate_stated :: "string \<Rightarrow> string \<Rightarrow> bool" where
  "duplicate_stated a b =
     (normalize_stated a = normalize_stated b \<or>
      ((contains_text (normalize_stated a) (normalize_stated b)
        \<or> contains_text (normalize_stated b) (normalize_stated a)) \<and>
       length (normalize_stated a) > 20 \<and> length (normalize_stated b) > 20))"

section \<open>Cards\<close>

text \<open>\<^verbatim>\<open>QuizQuestion\<close> of gemini-service.ts; an optional member is an \<^typ>\<open>'a option\<close>.\<close>

datatype question_type = MultipleChoice | TrueFalse | FillInBlank | ShortAnswer | Cloze

record QuizQuestion =
  qtype :: question_type
  question :: string
  answer :: string
  options :: "string list option"
  explanation :: "string option"
  clozeText :: "string option"

section \<open>AI enhancement of a batch of cards\<close>

text \<open>
  \<^verbatim>\<open>GeminiService.enhanceAllCards\<close>. The client library and the JSON functions are
  collaborators: \<open>generateContent\<close> stands for the three awaited steps
  \<^verbatim>\<open>model.generateContent(prompt)\<close>, \<^verbatim>\<open>result.response\<close> and \<^verbatim>\<open>response.text()\<close>
  and either throws (\<open>Inl\<close>) or gives the text of the answer; \<open>json_parse\<close> either throws or
  gives the parsed cards. \<^verbatim>\<open>getGenerativeModel\<close> and \<^verbatim>\<open>JSON.stringify\<close>, which are
  called in front of the try block, build a value and do not throw. A thrown error of the
  function itself is \<open>Inl\<close> of its message.
\<close>

record 'c ai_env =
  generateContent :: "'c \<Rightarrow> string \<Rightarrow> string + string"
  json_stringify :: "QuizQuestion list \<Rightarrow> string"
  json_parse :: "string \<Rightarrow> string + QuizQuestion list"

text \<open>
  \<^verbatim>\<open>text.match(/\[[\s\S]*\]/)\<close>: from the first opening bracket to the last closing
  bracket behind it, when there is one.
\<close>

definition json_match :: "string \<Rightarrow> string option" where
  "json_match text =
     (case dropWhile (\<lambda>c. c \<noteq> CHR ''['') text of
        [] \<Rightarrow> None
      | b # rest \<Rightarrow>
          (case dropWhile (\<lambda>c. c \<noteq> CHR '']'') (rev rest) of
             [] \<Rightarrow> None
           | body \<Rightarrow> Some (b # rev body)))"

definition truthy_text :: "string option \<Rightarrow> bool" where
  "truthy_text t = (case t of None \<Rightarrow> False | Some s \<Rightarrow> s \<noteq> [])"

definition enhance_prompt :: "string \<Rightarrow> string \<Rightarrow> string" where
  "enhance_prompt fullContext cards =
     ''Enhance these flashcards by improving questions and adding brief explanations. Use the document context to make questions more specific and relevant.\<newline>\<newline>''
     @ fullContext
     @ ''\<newline>\<newline>Current cards:\<newline>''
     @ cards
     @ ''\<newline>\<newline>Instructions:\<newline>- Use the file name and section context to make questions more specific\<newline>- Improve question clarity and wording to include document context\<newline>- Add brief explanations (1-2 sentences) that reference the source\<newline>- Keep the same answer content but enhance with context\<newline>- Maintain the original structure\<newline>- Make questions more contextual and educational\<newline>- For trigger word cards, ensure questions reference the specific document/section\<newline>\<newline>Return the enhanced cards in the same JSON format.''"

definition enhanceAllCards ::
  "'c ai_env \<Rightarrow> 'c option \<Rightarrow> QuizQuestion list \<Rightarrow> string \<Rightarrow> string option
     \<Rightarrow> string + QuizQuestion list" where
  "enhanceAllCards env genAI questions context documentContext =
     (case genAI of
        None \<Rightarrow> Inl ''Gemini API key not configured''
      | Some client \<Rightarrow>
          (let limitedContext =
                 (if length context > 2000 then take 2000 context @ ''...'' else context);
               fullContext =
                 (if truthy_text documentContext
                  then ''Document Context:\<newline>'' @ the documentContext
                       @ ''\<newline>\<newline>Content:\<newline>'' @ limitedContext
                  else limitedContext);
               prompt = enhance_prompt fullContext (json_stringify env questions)
           in case generateContent env client prompt of
                Inl err \<Rightarrow> Inr questions
              | Inr text \<Rightarrow>
                  (case json_match text of
                     None \<Rightarrow> Inr questions
                   | Some json \<Rightarrow>
                       (case json_parse env json of
                          Inl err \<Rightarrow> Inr questions
                        | Inr enhancedQuestions \<Rightarrow> Inr enhancedQuestions))))"

text \<open>The prompt that \<open>enhanceAllCards\<close> sends for given cards and context.\<close>

definition prompt_of ::
  "'c ai_env \<Rightarrow> QuizQuestion list \<Rightarrow> string \<Rightarrow> string option \<Rightarrow> string" where
  "prompt_of env questions context documentContext =
     enhance_prompt
       (if truthy_text documentContext
        then ''Document Context:\<newline>'' @ the documentContext
             @ ''\<newline>\<newline>Content:\<newline>''
             @ (if length context > 2000 then take 2000 context @ ''...'' else context)
        else (if length context > 2000 then take 2000 context @ ''...'' else context))
       (json_stringify env questions)"

text \<open>
  The batch call failed (it threw), or its answer could not be parsed: there is no bracketed
  part in the text, or the JSON parser throws on it.
\<close>

definition enhancement_failed ::
  "'c ai_env \<Rightarrow> 'c \<Rightarrow> QuizQuestion list \<Rightarrow> string \<Rightarrow> string option \<Rightarrow> bool" where
  "enhancement_failed env client questions context documentContext =
     (case generateContent env client (prompt_of env questions context documentContext) of
        Inl err \<Rightarrow> True
      | Inr text \<Rightarrow>
          (case json_match text of
             None \<Rightarrow> True
           | Some json \<Rightarrow> isl (json_parse env json)))"

section \<open>The remote store\<close>

text \<open>
  \<^verbatim>\<open>AnkiNote\<close>, \<^verbatim>\<open>AnkiConnectResponse\<close> and \<^verbatim>\<open>AnkiExportResult\<close>. A field map
  (\<^verbatim>\<open>Record<string, string>\<close>) is an association list in insertion order;
  \<^verbatim>\<open>fields[k] || ''\<close> is \<open>field_value\<close>.
\<close>

type_synonym field_map = "(string \<times> string) list"

definition field_value :: "field_map \<Rightarrow> string \<Rightarrow> string" where
  "field_value fs k = (case map_of fs k of None \<Rightarrow> [] | Some v \<Rightarrow> v)"

record AnkiNote =
  deckName :: string
  modelName :: string
  note_fields :: field_map
  tags :: "string list"

text \<open>
  A member of a response that comes from JSON is a value, null, or undefined where the
  response has no such key.
\<close>

datatype 'a jsval = Undefined | Null | Val 'a

datatype 'a response = Response (result: "'a jsval") (error: "string option")

record AnkiExportResult =
  success :: nat
  failed :: nat
  skipped :: nat
  errors :: "string list"
  decksCreated :: "string list"

text \<open>One entry of the answer of \<^verbatim>\<open>findMatchingNotesInfo\<close>.\<close>

record NoteMatch =
  noteId :: "nat option"
  existingFields :: "field_map option"

datatype behavior = Skip | Update | Create

text \<open>
  The store behind \<^verbatim>\<open>sendRequest\<close> is a collaborator with a state of its own. Each
  action takes the state of the store and its parameters, and gives the outcome of
  \<^verbatim>\<open>sendRequest\<close> and the new state: \<open>Inl\<close> is the error that \<^verbatim>\<open>sendRequest\<close> throws
  (no connection, a status that is not 2xx), \<open>Inr\<close> the response object. The requests that
  were sent are logged in order beside the state.
\<close>

record 's remote =
  rpc_updateNoteFields :: "'s \<Rightarrow> nat \<Rightarrow> field_map \<Rightarrow> (string + unit response) \<times> 's"
  rpc_addNotes :: "'s \<Rightarrow> AnkiNote list \<Rightarrow> (string + nat option list response) \<times> 's"
  rpc_addNote :: "'s \<Rightarrow> AnkiNote \<Rightarrow> (string + nat response) \<times> 's"

datatype request =
  UpdateNoteFieldsRequest nat field_map
| AddNotesRequest "AnkiNote list"
| AddNoteRequest AnkiNote

type_synonym 's world = "'s \<times> request list"

definition sendRequest_updateNoteFields ::
  "'s remote \<Rightarrow> 's world \<Rightarrow> nat \<Rightarrow> field_map \<Rightarrow> (string + unit response) \<times> 's world" where
  "sendRequest_updateNoteFields R w nid fs =
     (case rpc_updateNoteFields R (fst w) nid fs of
        (reply, s') \<Rightarrow> (reply, (s', snd w @ [UpdateNoteFieldsRequest nid fs])))"

definition sendRequest_addNotes ::
  "'s remote \<Rightarrow> 's world \<Rightarrow> AnkiNote list \<Rightarrow> (string + nat option list response) \<times> 's world" where
  "sendRequest_addNotes R w notes =
     (case rpc_addNotes R (fst w) notes of
        (reply, s') \<Rightarrow> (reply, (s', snd w @ [AddNotesRequest notes])))"

definition sendRequest_addNote ::
  "'s remote \<Rightarrow> 's world \<Rightarrow> AnkiNote \<Rightarrow> (string + nat response) \<times> 's world" where
  "sendRequest_addNote R w note =
     (case rpc_addNote R (fst w) note of
        (reply, s') \<Rightarrow> (reply, (s', snd w @ [AddNoteRequest note])))"

text \<open>\<^verbatim>\<open>AnkiConnectService.updateNoteFields\<close>: false when the request throws or reports an error.\<close>

definition updateNoteFields ::
  "'s remote \<Rightarrow> 's world \<Rightarrow> nat \<Rightarrow> field_map \<Rightarrow> bool \<times> 's world" where
  "updateNoteFields R w nid fs =
     (case sendRequest_updateNoteFields R w nid fs of
        (Inl err, w') \<Rightarrow> (False, w')
      | (Inr response, w') \<Rightarrow>
          (if truthy_text (error response) then (False, w') else (True, w')))"

text \<open>
  \<^verbatim>\<open>AnkiConnectService.addNotes\<close>. The body of its fallback loop for one note: a reported
  error that mentions a duplicate gives null without throwing; any other reported error is
  thrown, and the catch of the loop body turns it, and an error thrown by the request itself,
  into null. Without a reported error the loop pushes \<^verbatim>\<open>singleResponse.result\<close> as it is:
  the id, null, or undefined.
\<close>

definition addNote_in_fallback ::
  "'s remote \<Rightarrow> 's world \<Rightarrow> AnkiNote \<Rightarrow> nat jsval \<times> 's world" where
  "addNote_in_fallback R w note =
     (case sendRequest_addNote R w note of
        (Inl noteError, w') \<Rightarrow> (Null, w')
      | (Inr singleResponse, w') \<Rightarrow>
          (if truthy_text (error singleResponse)
           then (if str_includes (the (error singleResponse)) ''duplicate''
                 then (Null, w')
                 else (Null, w'))
           else (result singleResponse, w')))"

text \<open>An entry of the array of the bulk response is an id or null.\<close>

definition bulk_entry :: "nat option \<Rightarrow> nat jsval" where
  "bulk_entry e = (case e of None \<Rightarrow> Null | Some nid \<Rightarrow> Val nid)"

fun addNotes_fallback ::
  "'s remote \<Rightarrow> 's world \<Rightarrow> AnkiNote list \<Rightarrow> nat jsval list \<times> 's world" where
  "addNotes_fallback R w [] = ([], w)"
| "addNotes_fallback R w (note # notes) =
     (case addNote_in_fallback R w note of
        (r, w') \<Rightarrow>
          (case addNotes_fallback R w' notes of
             (results, w'') \<Rightarrow> (r # results, w'')))"

definition addNotes ::
  "'s remote \<Rightarrow> 's world \<Rightarrow> AnkiNote list \<Rightarrow> nat jsval list \<times> 's world" where
  "addNotes R w notes =
     (case sendRequest_addNotes R w notes of
        (Inl err, w') \<Rightarrow> addNotes_fallback R w' notes
      | (Inr response, w') \<Rightarrow>
          (if truthy_text (error response) then addNotes_fallback R w' notes
           else (case result response of
                   Val ids \<Rightarrow> (map bulk_entry ids, w')
                 | Null \<Rightarrow> ([], w')
                 | Undefined \<Rightarrow> ([], w'))))"

section \<open>The reconciler\<close>

text \<open>
  \<^verbatim>\<open>AnkiDirectExporter.processQuestionGroup\<close>, from the point where the notes of the group
  (\<^verbatim>\<open>ankiNotes\<close>) and the answer of \<^verbatim>\<open>findMatchingNotesInfo\<close> (\<^verbatim>\<open>matches\<close>) are known.
  None of the steps modelled here can throw: \<^verbatim>\<open>updateNoteFields\<close> and \<^verbatim>\<open>addNotes\<close>
  catch every error themselves.
\<close>

fun digit_char :: "nat \<Rightarrow> char" where
  "digit_char d = ''0123456789'' ! d"

function string_of_nat :: "nat \<Rightarrow> string" where
  "string_of_nat n =
     (if n < 10 then [digit_char n] else string_of_nat (n div 10) @ [digit_char (n mod 10)])"
  by pat_completeness auto
termination
  by (relation "measure id") auto

definition note_differs :: "AnkiNote \<Rightarrow> field_map \<Rightarrow> bool" where
  "note_differs note existing =
     (if modelName note = ''Cloze''
      then (let existingText = field_value existing ''Text'';
                newText = field_value (note_fields note) ''Text''
            in \<not> isContentSimilar existingText newText)
      else (let existingFront = field_value existing ''Front'';
                newFront = field_value (note_fields note) ''Front'';
                existingBack = field_value existing ''Back'';
                newBack = field_value (note_fields note) ''Back''
            in \<not> isContentSimilar existingFront newFront
               \<or> \<not> isContentSimilar existingBack newBack))"

definition fieldsToUpdate :: "AnkiNote \<Rightarrow> field_map" where
  "fieldsToUpdate note =
     (if modelName note = ''Cloze''
      then [(''Extra'', field_value (note_fields note) ''Extra'')]
      else [(''Back'', field_value (note_fields note) ''Back'')])"

text \<open>\<^verbatim>\<open>match && match.noteId\<close>: there is an entry and its id is neither null nor 0.\<close>

definition match_found :: "NoteMatch option \<Rightarrow> bool" where
  "match_found m =
     (case m of
        None \<Rightarrow> False
      | Some mt \<Rightarrow> (case noteId mt of None \<Rightarrow> False | Some n \<Rightarrow> n \<noteq> 0))"

record 's group_state =
  notesToCreate :: "AnkiNote list"
  updatedCount :: nat
  skippedCount :: nat
  group_result :: AnkiExportResult
  group_world :: "'s world"

text \<open>The body of the loop over the notes, for one note and its entry of \<^verbatim>\<open>matches\<close>.\<close>

definition reconcile_note ::
  "'s remote \<Rightarrow> behavior \<Rightarrow> string \<Rightarrow> 's group_state \<Rightarrow> AnkiNote \<Rightarrow> NoteMatch option
     \<Rightarrow> 's group_state" where
  "reconcile_note R behavior deck st note m =
     (if match_found m
      then (let existing = (case existingFields (the m) of None \<Rightarrow> [] | Some f \<Rightarrow> f);
                nid = the (noteId (the m))
            in if behavior = Create
               then st\<lparr>notesToCreate := notesToCreate st @ [note]\<rparr>
               else (let differs = note_differs note existing
                     in if \<not> differs \<and> behavior = Skip
                        then st\<lparr>skippedCount := skippedCount st + 1\<rparr>
                        else if \<not> differs \<and> behavior = Update
                        then st\<lparr>skippedCount := skippedCount st + 1\<rparr>
                        else if behavior = Update
                        then (case updateNoteFields R (group_world st) nid (fieldsToUpdate note) of
                                (ok, w') \<Rightarrow>
                                  (if ok
                                   then st\<lparr>updatedCount := updatedCount st + 1,
                                           group_world := w'\<rparr>
                                   else st\<lparr>group_result := (group_result st)
                                             \<lparr>failed := failed (group_result st) + 1,
                                              errors := errors (group_result st)
                                                @ [''Failed to update note '' @ string_of_nat nid
                                                   @ '' in '' @ deck]\<rparr>,
                                           group_world := w'\<rparr>))
                        else if behavior = Skip
                        then st\<lparr>skippedCount := skippedCount st + 1\<rparr>
                        else st))
      else st\<lparr>notesToCreate := notesToCreate st @ [note]\<rparr>)"

text \<open>
  The loop \<^verbatim>\<open>for (let i = 0; i < ankiNotes.length; i++)\<close>; \<^verbatim>\<open>matches[i]\<close> is undefined
  behind the end of \<^verbatim>\<open>matches\<close>.
\<close>

fun reconcile_loop ::
  "'s remote \<Rightarrow> behavior \<Rightarrow> string \<Rightarrow> 's group_state \<Rightarrow> AnkiNote list \<Rightarrow> NoteMatch list
     \<Rightarrow> 's group_state" where
  "reconcile_loop R behavior deck st [] ms = st"
| "reconcile_loop R behavior deck st (note # notes) [] =
     reconcile_loop R behavior deck (reconcile_note R behavior deck st note None) notes []"
| "reconcile_loop R behavior deck st (note # notes) (m # ms) =
     reconcile_loop R behavior deck (reconcile_note R behavior deck st note (Some m)) notes ms"

text \<open>
  \<^verbatim>\<open>addResults.forEach((noteId, idx) => ...)\<close>: an entry that is \<^verbatim>\<open>=== null\<close> counts as
  failed, with a message built from \<^verbatim>\<open>questions[idx]\<close>; every other entry, an id or
  undefined, counts as a success.
\<close>

definition add_failure_message :: "string \<Rightarrow> QuizQuestion list \<Rightarrow> nat \<Rightarrow> string" where
  "add_failure_message deck questions idx =
     ''Failed to add card in '' @ deck @ '': ''
     @ (if idx < length questions then take 50 (question (questions ! idx)) else ''undefined'')
     @ ''...''"

fun count_add_results ::
  "string \<Rightarrow> QuizQuestion list \<Rightarrow> nat \<Rightarrow> AnkiExportResult \<Rightarrow> nat jsval list
     \<Rightarrow> AnkiExportResult" where
  "count_add_results deck questions idx res [] = res"
| "count_add_results deck questions idx res (Null # rest) =
     count_add_results deck questions (idx + 1)
       (res\<lparr>failed := failed res + 1,
            errors := errors res @ [add_failure_message deck questions idx]\<rparr>) rest"
| "count_add_results deck questions idx res (Val nid # rest) =
     count_add_results deck questions (idx + 1) (res\<lparr>success := success res + 1\<rparr>) rest"
| "count_add_results deck questions idx res (Undefined # rest) =
     count_add_results deck questions (idx + 1) (res\<lparr>success := success res + 1\<rparr>) rest"

definition empty_result :: AnkiExportResult where
  "empty_result = \<lparr>success = 0, failed = 0, skipped = 0, errors = [], decksCreated = []\<rparr>"

definition processQuestionGroup ::
  "'s remote \<Rightarrow> behavior option \<Rightarrow> string \<Rightarrow> QuizQuestion list \<Rightarrow> AnkiNote list
     \<Rightarrow> NoteMatch list \<Rightarrow> AnkiExportResult \<Rightarrow> 's world \<Rightarrow> AnkiExportResult \<times> 's world" where
  "processQuestionGroup R existingNoteBehavior deck questions ankiNotes matches res w =
     (let behavior = (case existingNoteBehavior of None \<Rightarrow> Skip | Some b \<Rightarrow> b);
          st = reconcile_loop R behavior deck
                 \<lparr>notesToCreate = [], updatedCount = 0, skippedCount = 0,
                  group_result = res, group_world = w\<rparr> ankiNotes matches;
          res1 = (if skippedCount st > 0
                  then (group_result st)\<lparr>skipped := skipped (group_result st) + skippedCount st\<rparr>
                  else group_result st);
          res2 = (if updatedCount st > 0
                  then res1\<lparr>success := success res1 + updatedCount st\<rparr>
                  else res1)
      in if length (notesToCreate st) > 0
         then (case addNotes R (group_world st) (notesToCreate st) of
                 (addResults, w') \<Rightarrow> (count_add_results deck questions 0 res2 addResults, w'))
         else (res2, group_world st))"

text \<open>The \<^verbatim>\<open>updateNoteFields\<close> requests of a log, in order.\<close>

fun update_requests :: "request list \<Rightarrow> (nat \<times> field_map) list" where
  "update_requests [] = []"
| "update_requests (UpdateNoteFieldsRequest nid fs # rest) = (nid, fs) # update_requests rest"
| "update_requests (r # rest) = update_requests rest"

section \<open>Regular expressions of the cue extractor\<close>

text \<open>
  The extractor works with four regular expressions. Each is modelled by a function that
  follows the backtracking search of the JavaScript matcher: where a greedy quantifier can
  take several lengths, the lengths are tried from the longest to the shortest
  (\<open>countdown\<close>), and the first attempt that lets the rest of the expression match wins
  (\<open>first_some\<close>).
\<close>

fun first_some :: "('a \<Rightarrow> 'b option) \<Rightarrow> 'a list \<Rightarrow> 'b option" where
  "first_some f [] = None"
| "first_some f (x # xs) = (case f x of Some y \<Rightarrow> Some y | None \<Rightarrow> first_some f xs)"

text \<open>\<open>countdown lo n\<close> is \<open>n, n - 1, ..., lo\<close>, and empty when \<open>n < lo\<close>.\<close>

fun countdown :: "nat \<Rightarrow> nat \<Rightarrow> nat list" where
  "countdown lo 0 = (if lo = 0 then [0] else [])"
| "countdown lo (Suc n) = (if lo \<le> Suc n then Suc n # countdown lo n else [])"

definition run_length :: "('a \<Rightarrow> bool) \<Rightarrow> 'a list \<Rightarrow> nat" where
  "run_length P s = length (takeWhile P s)"

text \<open>\<^verbatim>\<open>content.split('\n')\<close>.\<close>

fun split_lines :: "string \<Rightarrow> string list" where
  "split_lines [] = [[]]"
| "split_lines (c # cs) =
     (if c = LF then [] # split_lines cs
      else (case split_lines cs of l # ls \<Rightarrow> (c # l) # ls | [] \<Rightarrow> [[c]]))"

subsection \<open>Lines that start with a trigger word\<close>

text \<open>
  \<^verbatim>\<open>new RegExp(`^(\\*{1,3})?\\s*(${triggerWord})\\s*[:.]\\s*(.+)`, 'i')\<close>, matched against
  one line. The trigger word is taken literally: the model covers trigger words without
  characters that are special in a regular expression. With the flag \<^verbatim>\<open>i\<close> two code
  units up to U+00FF match when their lower-case forms are equal. The result is the whole
  match and the third group.
\<close>

definition ci_prefix :: "string \<Rightarrow> string \<Rightarrow> bool" where
  "ci_prefix w s =
     (length w \<le> length s \<and> map lower_char (take (length w) s) = map lower_char w)"

text \<open>\<^verbatim>\<open>(.+)\<close> at the end of the expression: the longest run without a line terminator,
  which must not be empty.\<close>

definition dot_plus :: "string \<Rightarrow> string option" where
  "dot_plus s =
     (let m = takeWhile (\<lambda>c. \<not> is_line_terminator c) s in if m = [] then None else Some m)"

text \<open>\<^verbatim>\<open>\s*(.+)\<close>\<close>

definition after_separator :: "string \<Rightarrow> (string \<times> string) option" where
  "after_separator s =
     first_some
       (\<lambda>j. map_option (\<lambda>cap. (take j s @ cap, cap)) (dot_plus (drop j s)))
       (countdown 0 (run_length is_space_char s))"

text \<open>\<^verbatim>\<open>\s*[:.]\s*(.+)\<close>\<close>

definition separator_stage :: "string \<Rightarrow> (string \<times> string) option" where
  "separator_stage s =
     first_some
       (\<lambda>j. case drop j s of
               [] \<Rightarrow> None
             | c # rest \<Rightarrow>
                 (if c = CHR '':'' \<or> c = CHR ''.''
                  then map_option (\<lambda>(m, cap). (take j s @ c # m, cap)) (after_separator rest)
                  else None))
       (countdown 0 (run_length is_space_char s))"

text \<open>\<^verbatim>\<open>\s*(triggerWord)\s*[:.]\s*(.+)\<close>\<close>

definition word_stage :: "string \<Rightarrow> string \<Rightarrow> (string \<times> string) option" where
  "word_stage triggerWord s =
     first_some
       (\<lambda>j. let r = drop j s
            in if ci_prefix triggerWord r
               then map_option
                      (\<lambda>(m, cap). (take j s @ take (length triggerWord) r @ m, cap))
                      (separator_stage (drop (length triggerWord) r))
               else None)
       (countdown 0 (run_length is_space_char s))"

text \<open>The whole expression: three, two or one asterisk, or none, then the rest.\<close>

definition trigger_regex :: "string \<Rightarrow> string \<Rightarrow> (string \<times> string) option" where
  "trigger_regex triggerWord line =
     first_some
       (\<lambda>k. map_option (\<lambda>(m, cap). (take k line @ m, cap))
              (word_stage triggerWord (drop k line)))
       (countdown 0 (min 3 (run_length (\<lambda>c. c = CHR ''*'') line)))"

subsection \<open>Headings\<close>

text \<open>
  \<^verbatim>\<open>/^#{1,6}\s+(.+)$/\<close> against a trimmed line; the result is the first group. Without
  the flag \<^verbatim>\<open>m\<close> the \<^verbatim>\<open>$\<close> is the end of the line, so the group is the whole rest and
  holds no line terminator.
\<close>

definition header_regex :: "string \<Rightarrow> string option" where
  "header_regex line =
     first_some
       (\<lambda>k. let r = drop k line
            in first_some
                 (\<lambda>j. let cap = drop j r
                      in if cap \<noteq> [] \<and> list_all (\<lambda>c. \<not> is_line_terminator c) cap
                         then Some cap else None)
                 (countdown 1 (run_length is_space_char r)))
       (countdown 1 (min 6 (run_length (\<lambda>c. c = CHR ''#'') line)))"

subsection \<open>Highlights\<close>

text \<open>
  \<^verbatim>\<open>/==(.*?)==/g\<close>, on code units. \<open>lazy_dot\<close> is \<^verbatim>\<open>(.*?)==\<close>: the shortest run without a line
  terminator that is followed by two equals signs. \<open>extractHighlights\<close> is the loop of
  \<^verbatim>\<open>regex.exec\<close>: the next search starts behind the last match, and one code unit further
  where nothing matches.
\<close>

fun lazy_dot :: "nat list \<Rightarrow> nat list option" where
  "lazy_dot [] = None"
| "lazy_dot (u # us) =
     (if startsWith (u # us) [EQUALS, EQUALS] then Some []
      else if is_terminator_unit u then None
      else map_option ((#) u) (lazy_dot us))"

definition highlight_at :: "nat list \<Rightarrow> nat list option" where
  "highlight_at s =
     (if startsWith s [EQUALS, EQUALS]
      then map_option (\<lambda>inner. [EQUALS, EQUALS] @ inner @ [EQUALS, EQUALS]) (lazy_dot (drop 2 s))
      else None)"

function extractHighlights :: "nat list \<Rightarrow> nat list list" where
  "extractHighlights [] = []"
| "extractHighlights (u # us) =
     (case highlight_at (u # us) of
        Some m \<Rightarrow> m # extractHighlights (drop (max 1 (length m)) (u # us))
      | None \<Rightarrow> extractHighlights us)"
  by pat_completeness auto
termination
  by (relation "measure length") auto

subsection \<open>Cue lines\<close>

text \<open>
  \<^verbatim>\<open>/^[^:\n]*::[^:\n]+$/gm\<close> against the whole content, on code units. With the flag
  \<^verbatim>\<open>m\<close>, \<^verbatim>\<open>^\<close> holds at the start of the content and behind a line terminator, and
  \<^verbatim>\<open>$\<close> holds at the end of the content and in front of a line terminator; the two
  classes exclude the colon and the line feed only. \<open>cue_at\<close> is one attempt at a position
  where \<^verbatim>\<open>^\<close> holds: the first class takes the longest run, which two colons must follow
  (a shorter run is followed by a code unit of the run, not by a colon); the second class
  takes the longest run at whose end \<^verbatim>\<open>$\<close> holds.
\<close>

definition cue_unit :: "nat \<Rightarrow> bool" where
  "cue_unit u = (u \<noteq> COLON \<and> u \<noteq> LINE_FEED)"

definition at_line_end :: "nat list \<Rightarrow> bool" where
  "at_line_end s = (case s of [] \<Rightarrow> True | u # us \<Rightarrow> is_terminator_unit u)"

definition cue_at :: "nat list \<Rightarrow> nat list option" where
  "cue_at s =
     (let pre = takeWhile cue_unit s;
          r = dropWhile cue_unit s
      in if startsWith r [COLON, COLON]
         then (let r2 = drop 2 r
               in first_some
                    (\<lambda>j. if at_line_end (drop j r2) then Some (pre @ [COLON, COLON] @ take j r2)
                         else None)
                    (countdown 1 (run_length cue_unit r2)))
         else None)"

text \<open>
  The loop of \<^verbatim>\<open>content.match(regex)\<close> with the flag \<^verbatim>\<open>g\<close>; \<open>bol\<close> tells whether
  \<^verbatim>\<open>^\<close> holds at the current position.
\<close>

function cue_scan :: "bool \<Rightarrow> nat list \<Rightarrow> nat list list" where
  "cue_scan bol [] = []"
| "cue_scan bol (u # us) =
     (case (if bol then cue_at (u # us) else None) of
        Some m \<Rightarrow>
          m # cue_scan (is_terminator_unit (last (take (max 1 (length m)) (u # us))))
                (drop (max 1 (length m)) (u # us))
      | None \<Rightarrow> cue_scan (is_terminator_unit u) us)"
  by pat_completeness auto
termination
  by (relation "measure (\<lambda>(bol, s). length s)") auto

section \<open>The cue extractor\<close>

text \<open>\<^verbatim>\<open>extractRemNoteCues\<close>, \<^verbatim>\<open>checkForTriggerWords\<close>; \<^verbatim>\<open>extractHighlights\<close> is defined with its expression.\<close>

definition extractRemNoteCues :: "nat list \<Rightarrow> nat list list" where
  "extractRemNoteCues content =
     filter (\<lambda>m. \<not> str_includes m [EQUALS, EQUALS]) (cue_scan True content)"

text \<open>The inner loop of \<^verbatim>\<open>checkForTriggerWords\<close>: every trigger word is tried on the line,
  and every one that matches pushes the match.\<close>

fun line_trigger_matches :: "string list \<Rightarrow> string \<Rightarrow> string list" where
  "line_trigger_matches [] line = []"
| "line_trigger_matches (triggerWord # rest) line =
     (case trigger_regex triggerWord line of
        Some (m, cap) \<Rightarrow> m # line_trigger_matches rest line
      | None \<Rightarrow> line_trigger_matches rest line)"

definition checkForTriggerWords :: "string list \<Rightarrow> string \<Rightarrow> string list" where
  "checkForTriggerWords triggers content =
     concat (map (line_trigger_matches triggers) (split_lines content))"

section \<open>The context resolver\<close>

text \<open>
  \<^verbatim>\<open>getMostRelevantHeader\<close>. \<open>find_target\<close> is \<^verbatim>\<open>lines.findIndex(line => line.includes(targetLine))\<close>:
  it gives the first line that contains the target, and the lines in front of it, the
  nearest first. \<^verbatim>\<open>generateFilenameDisplay(file, false)\<close> gets the base name of the file,
  or nothing where there is no file.
\<close>

fun find_target :: "string list \<Rightarrow> string \<Rightarrow> string list \<Rightarrow> (string list \<times> string) option" where
  "find_target [] target earlier = None"
| "find_target (l # ls) target earlier =
     (if str_includes l target then Some (earlier, l) else find_target ls target (l # earlier))"

definition getMostRelevantHeader :: "string \<Rightarrow> string \<Rightarrow> string option" where
  "getMostRelevantHeader content targetLine =
     (case find_target (split_lines content) targetLine [] of
        None \<Rightarrow> None
      | Some (earlier, l) \<Rightarrow>
          first_some
            (\<lambda>l'. let line = trim l'
                  in if startsWith line ''#'' then header_regex line else None)
            earlier)"

definition generateFilenameDisplay :: "string option \<Rightarrow> string" where
  "generateFilenameDisplay file =
     (case file of None \<Rightarrow> ''Unknown File.md'' | Some basename \<Rightarrow> basename @ ''.md'')"

section \<open>The card builder\<close>

text \<open>\<^verbatim>\<open>highlight.replace(/==/g, '')\<close>\<close>

fun remove_markers :: "string \<Rightarrow> string" where
  "remove_markers [] = []"
| "remove_markers [c] = [c]"
| "remove_markers (c # d # cs) =
     (if c = CHR ''='' \<and> d = CHR ''='' then remove_markers cs else c # remove_markers (d # cs))"

text \<open>
  \<^verbatim>\<open>targetLine.replace(highlight, replacement)\<close> with a string as the pattern: the first
  occurrence is replaced, and in the replacement \<^verbatim>\<open>$$\<close> stands for a dollar sign,
  \<^verbatim>\<open>$&\<close> for the matched text, \<^verbatim>\<open>$`\<close> for the text in front of it and \<^verbatim>\<open>$'\<close> for
  the text behind it; there are no groups, so every other dollar sign stands for itself.
\<close>

fun expand_replacement :: "string \<Rightarrow> string \<Rightarrow> string \<Rightarrow> string \<Rightarrow> string" where
  "expand_replacement matched lead rest [] = []"
| "expand_replacement matched lead rest [c] = [c]"
| "expand_replacement matched lead rest (c # d # cs) =
     (if c = CHR ''$'' \<and> d = CHR ''$'' then CHR ''$'' # expand_replacement matched lead rest cs
      else if c = CHR ''$'' \<and> d = CHR ''&'' then matched @ expand_replacement matched lead rest cs
      else if c = CHR ''$'' \<and> d = CHR 0x60 then lead @ expand_replacement matched lead rest cs
      else if c = CHR ''$'' \<and> d = CHR 0x27 then rest @ expand_replacement matched lead rest cs
      else c # expand_replacement matched lead rest (d # cs))"

fun replace_first :: "string \<Rightarrow> string \<Rightarrow> string \<Rightarrow> string \<Rightarrow> string" where
  "replace_first lead [] pat repl =
     (if pat = [] then rev lead @ expand_replacement pat (rev lead) [] repl else rev lead)"
| "replace_first lead (c # cs) pat repl =
     (if startsWith (c # cs) pat
      then rev lead @ expand_replacement pat (rev lead) (drop (length pat) (c # cs)) repl
           @ drop (length pat) (c # cs)
      else replace_first (c # lead) cs pat repl)"

definition context_string :: "string \<Rightarrow> string option \<Rightarrow> string" where
  "context_string filename relevantHeader =
     (if truthy_text relevantHeader then filename @ ''\<newline>-> '' @ the relevantHeader
      else filename)"

text \<open>\<^verbatim>\<open>generateContextualClozeCards\<close>: the body of its loop for one highlight, and the loop.\<close>

definition cloze_card :: "string \<Rightarrow> string option \<Rightarrow> string \<Rightarrow> QuizQuestion option" where
  "cloze_card content file highlight =
     (let filename = generateFilenameDisplay file;
          cleanHighlight = remove_markers highlight
      in case find_target (split_lines content) highlight [] of
           None \<Rightarrow> None
         | Some (earlier, targetLine) \<Rightarrow>
             (let relevantHeader = getMostRelevantHeader content highlight;
                  contextString = context_string filename relevantHeader;
                  clozeText0 = replace_first [] targetLine highlight
                                 (''{{c1::'' @ cleanHighlight @ ''}}'');
                  contextualClozeText = contextString @ ''\<newline> '' @ clozeText0
              in Some \<lparr>qtype = Cloze, question = contextualClozeText, answer = cleanHighlight,
                       options = None, explanation = None,
                       clozeText = Some contextualClozeText\<rparr>))"

definition generateContextualClozeCards ::
  "string \<Rightarrow> string list \<Rightarrow> string option \<Rightarrow> QuizQuestion list" where
  "generateContextualClozeCards content highlights file =
     List.map_filter (cloze_card content file) highlights"

text \<open>\<^verbatim>\<open>match.split('::')\<close>\<close>

fun split_cue :: "string \<Rightarrow> string list" where
  "split_cue [] = [[]]"
| "split_cue [c] = [[c]]"
| "split_cue (c # d # cs) =
     (if c = CHR '':'' \<and> d = CHR '':'' then [] # split_cue cs
      else (case split_cue (d # cs) of p # ps \<Rightarrow> (c # p) # ps | [] \<Rightarrow> [[c]]))"

text \<open>\<^verbatim>\<open>generateContextualQACards\<close>\<close>

definition qa_card :: "string \<Rightarrow> string option \<Rightarrow> string \<Rightarrow> QuizQuestion option" where
  "qa_card content file m =
     (case split_cue m of
        p0 # p1 # ps \<Rightarrow>
          (let originalQuestion = trim p0;
               answer' = trim p1;
               relevantHeader = getMostRelevantHeader content m;
               contextString = context_string (generateFilenameDisplay file) relevantHeader;
               contextualQuestion = contextString @ ''\<newline> '' @ originalQuestion
           in Some \<lparr>qtype = ShortAnswer, question = contextualQuestion, answer = answer',
                    options = None, explanation = None, clozeText = None\<rparr>)
      | _ \<Rightarrow> None)"

definition generateContextualQACards ::
  "string list \<Rightarrow> string \<Rightarrow> string option \<Rightarrow> QuizQuestion list" where
  "generateContextualQACards remNoteMatches content file =
     List.map_filter (qa_card content file) remNoteMatches"

text \<open>
  \<^verbatim>\<open>generateContextualTriggerCards\<close>: for one match the first trigger word whose expression
  matches it gives the card, and the search stops there (\<^verbatim>\<open>break\<close>).
\<close>

definition trigger_card ::
  "string list \<Rightarrow> string \<Rightarrow> string option \<Rightarrow> string \<Rightarrow> QuizQuestion option" where
  "trigger_card triggers content file m =
     first_some
       (\<lambda>triggerWord.
          case trigger_regex triggerWord m of
            None \<Rightarrow> None
          | Some (m0, cap) \<Rightarrow>
              (let definition' = trim cap;
                   relevantHeader = getMostRelevantHeader content m;
                   contextString =
                     (if truthy_text relevantHeader
                      then generateFilenameDisplay file @ ''\<newline>'' @ ''\<newline>-> ''
                           @ the relevantHeader
                      else generateFilenameDisplay file @ ''\<newline>'');
                   contextualQuestion = contextString @ ''\<newline>\<newline>'' @ triggerWord
               in Some \<lparr>qtype = ShortAnswer, question = contextualQuestion,
                        answer = definition', options = None, explanation = None,
                        clozeText = None\<rparr>))
       triggers"

definition generateContextualTriggerCards ::
  "string list \<Rightarrow> string list \<Rightarrow> string \<Rightarrow> string option \<Rightarrow> QuizQuestion list" where
  "generateContextualTriggerCards triggers triggerMatches content file =
     List.map_filter (trigger_card triggers content file) triggerMatches"

section \<open>Notions used to state the claims about the extractor\<close>

text \<open>
  Text delimited by double equals signs, stated without the expression. \<open>delimited_at s inner\<close>:
  \<open>s\<close> begins with two equals signs, \<open>inner\<close> and two equals signs. An occurrence is
  delimited text whose inner text lies on one line, that is, holds no line terminator.
  \<open>occurrences ms s\<close> says that \<open>ms\<close> are the occurrences of \<open>s\<close> from left to right without
  overlap: no occurrence begins in the gap in front of a match, the match is the occurrence
  at its place that closes first, and the rest of the matches are those of the text behind
  it; after the last match no occurrence begins any more.
\<close>

definition one_line :: "nat list \<Rightarrow> bool" where
  "one_line inner = list_all (\<lambda>u. \<not> is_terminator_unit u) inner"

definition delimited_at :: "nat list \<Rightarrow> nat list \<Rightarrow> bool" where
  "delimited_at s inner = (\<exists>rest. s = [EQUALS, EQUALS] @ inner @ [EQUALS, EQUALS] @ rest)"

definition occurrence_at :: "nat list \<Rightarrow> bool" where
  "occurrence_at s = (\<exists>inner. delimited_at s inner \<and> one_line inner)"

fun occurrences :: "nat list list \<Rightarrow> nat list \<Rightarrow> bool" where
  "occurrences [] s = (\<forall>i<length s. \<not> occurrence_at (drop i s))"
| "occurrences (m # ms) s =
     (\<exists>gap inner rest.
        s = gap @ m @ rest \<and> (\<forall>i<length gap. \<not> occurrence_at (drop i s))
        \<and> m = [EQUALS, EQUALS] @ inner @ [EQUALS, EQUALS] \<and> one_line inner
        \<and> (\<forall>other. delimited_at (m @ rest) other \<and> one_line other \<longrightarrow> length inner \<le> length other)
        \<and> occurrences ms rest)"

text \<open>
  The claim speaks of text delimited by double equals signs, without asking for one line.
\<close>

definition stated_occurrence_at :: "nat list \<Rightarrow> bool" where
  "stated_occurrence_at s = (\<exists>inner. delimited_at s inner)"

text \<open>
  The lines of a content given as code units: the parts between its line feeds.
\<close>

fun split_units :: "nat list \<Rightarrow> nat list list" where
  "split_units [] = [[]]"
| "split_units (u # us) =
     (if u = LINE_FEED then [] # split_units us
      else (case split_units us of l # ls \<Rightarrow> (u # l) # ls | [] \<Rightarrow> [[u]]))"

text \<open>
  A cue line as the code takes it: a prefix without colon, which may be empty, two colons,
  and a non-empty suffix without colon; and no highlight delimiter on the line.
  \<open>line_rest\<close> describes what follows a line in the content: nothing, or a line feed and
  the following lines.
\<close>

definition cue_shape :: "nat list \<Rightarrow> bool" where
  "cue_shape l =
     (\<exists>pre suf. l = pre @ [COLON, COLON] @ suf \<and> COLON \<notin> set pre \<and> suf \<noteq> []
        \<and> COLON \<notin> set suf)"

definition is_cue_line :: "nat list \<Rightarrow> bool" where
  "is_cue_line l = (cue_shape l \<and> \<not> contains_text l [EQUALS, EQUALS])"

definition line_rest :: "nat list \<Rightarrow> bool" where
  "line_rest rest = (rest = [] \<or> (\<exists>t. rest = LINE_FEED # t))"

text \<open>
  A line is tidy when a carriage return, U+2028 or U+2029 occurs in it at most as its last
  code unit, as in a file whose lines end with carriage return and line feed. The lines of
  a content are plain when every line is tidy, or is a cue line, or holds no double colon.
\<close>

definition tidy_line :: "nat list \<Rightarrow> bool" where
  "tidy_line l = list_all (\<lambda>u. \<not> is_terminator_unit u) (butlast l)"

definition plain_lines :: "nat list \<Rightarrow> bool" where
  "plain_lines content =
     (\<forall>l \<in> set (split_units content).
        tidy_line l \<or> cue_shape l \<or> \<not> contains_text l [COLON, COLON])"

text \<open>
  A cue line in the words of the specification: a non-empty prefix, a double colon, a
  non-empty suffix, no other double colon, and no highlight delimiter on the line.
\<close>

definition cue_line_spec :: "nat list \<Rightarrow> bool" where
  "cue_line_spec l =
     (\<exists>pre suf. l = pre @ [COLON, COLON] @ suf \<and> pre \<noteq> [] \<and> suf \<noteq> []
        \<and> \<not> contains_text pre [COLON, COLON] \<and> \<not> contains_text suf [COLON, COLON]
        \<and> \<not> contains_text l [EQUALS, EQUALS])"

text \<open>
  \<open>count_occurrences pat s\<close> is the number of positions of \<open>s\<close> at which \<open>pat\<close> begins.
  A cloze deletion marker begins with two opening braces and the letter c, followed by its
  number and two colons.
\<close>

fun count_occurrences :: "string \<Rightarrow> string \<Rightarrow> nat" where
  "count_occurrences pat [] = 0"
| "count_occurrences pat (c # cs) =
     (if startsWith (c # cs) pat then 1 else 0) + count_occurrences pat cs"

text \<open>The cloze card built from the line \<open>a ==wheel== turns\<close> under the heading \<open>Defs\<close>.\<close>

definition demo_cloze_card :: QuizQuestion where
  "demo_cloze_card =
     \<lparr>qtype = Cloze, question = ''note.md\<newline>-> Defs\<newline> a {{c1::wheel}} turns'', answer = ''wheel'',
      options = None, explanation = None,
      clozeText = Some ''note.md\<newline>-> Defs\<newline> a {{c1::wheel}} turns''\<rparr>"

text \<open>
  The texts of the document that reach the card of a highlight: the first line that contains
  the highlight, the displayed file name, and the heading of that line where there is one.
  A text is free of braces when it holds no opening brace.
\<close>

definition brace_free :: "string \<Rightarrow> bool" where
  "brace_free s = (CHR ''{'' \<notin> set s)"

definition card_sources :: "string \<Rightarrow> string option \<Rightarrow> string \<Rightarrow> string list" where
  "card_sources content file highlight =
     (case find_target (split_lines content) highlight [] of
        None \<Rightarrow> []
      | Some (earlier, targetLine) \<Rightarrow>
          [targetLine, generateFilenameDisplay file]
          @ (case getMostRelevantHeader content highlight of None \<Rightarrow> [] | Some header \<Rightarrow> [header]))"

text \<open>
  The cloze card built from the line \<open>the ==wheel== turns\<close> of a document whose first line
  is \<open>S = {1, 2} is a set\<close>.
\<close>

definition braces_cloze_card :: QuizQuestion where
  "braces_cloze_card =
     \<lparr>qtype = Cloze, question = ''note.md\<newline> the {{c1::wheel}} turns'', answer = ''wheel'',
      options = None, explanation = None,
      clozeText = Some ''note.md\<newline> the {{c1::wheel}} turns''\<rparr>"

section \<open>Notions used to state the claims about the reconciler\<close>


text \<open>
  What submitting the notes one at a time means, stated on the store alone: the replies of
  the store to one \<^verbatim>\<open>addNote\<close> request per note, in the order of the notes, each request
  meeting the state that the one before left, whatever the replies were; and the state of the
  store behind the last request.
\<close>

fun individual_replies :: "'s remote \<Rightarrow> 's \<Rightarrow> AnkiNote list \<Rightarrow> (string + nat response) list" where
  "individual_replies R s [] = []"
| "individual_replies R s (n # ns) =
     fst (rpc_addNote R s n) # individual_replies R (snd (rpc_addNote R s n)) ns"

fun store_after_individual :: "'s remote \<Rightarrow> 's \<Rightarrow> AnkiNote list \<Rightarrow> 's" where
  "store_after_individual R s [] = s"
| "store_after_individual R s (n # ns) = store_after_individual R (snd (rpc_addNote R s n)) ns"

text \<open>
  An individual creation is rejected when the request throws, when its reply reports an
  error, a duplicate or any other, or when the result of the reply is null. A rejected
  creation must give null; any other gives the result of its reply.
\<close>

definition rejected :: "string + nat response \<Rightarrow> bool" where
  "rejected reply =
     (case reply of
        Inl thrown \<Rightarrow> True
      | Inr r \<Rightarrow> (case error r of
                  Some e \<Rightarrow> e \<noteq> [] \<or> result r = Null
                | None \<Rightarrow> result r = Null))"

definition individual_result :: "string + nat response \<Rightarrow> nat jsval" where
  "individual_result reply =
     (if rejected reply then Null else (case reply of Inr r \<Rightarrow> result r | Inl thrown \<Rightarrow> Null))"



text \<open>
  A card is changed and its record was found: the entry of \<^verbatim>\<open>matches\<close> has an id that
  is neither null nor 0, and the similarity check finds a difference. \<open>expected_update\<close> is
  the one \<^verbatim>\<open>updateNoteFields\<close> request expected for such a card.
\<close>

definition existing_of :: "NoteMatch \<Rightarrow> field_map" where
  "existing_of m = (case existingFields m of None \<Rightarrow> [] | Some f \<Rightarrow> f)"

definition changed_and_found :: "AnkiNote \<Rightarrow> NoteMatch \<Rightarrow> bool" where
  "changed_and_found n m = (match_found (Some m) \<and> note_differs n (existing_of m))"

definition update_field :: "AnkiNote \<Rightarrow> string" where
  "update_field n = (if modelName n = ''Cloze'' then ''Extra'' else ''Back'')"

definition expected_update :: "AnkiNote \<times> NoteMatch \<Rightarrow> nat \<times> field_map" where
  "expected_update p =
     (the (noteId (snd p)),
      [(update_field (fst p), field_value (note_fields (fst p)) (update_field (fst p)))])"

text \<open>
  The answer-bearing field in the words of the specification: the free-text field of a cloze
  record, the back field of a front/back record.
\<close>

definition answer_field_spec :: "AnkiNote \<Rightarrow> string" where
  "answer_field_spec n = (if modelName n = ''Cloze'' then ''Text'' else ''Back'')"

text \<open>
  A store for the examples. It keeps the list of the notes created; the bulk request fails
  as a whole, the individual request rejects the note with front \<open>q3\<close> as a duplicate and
  creates every other note.
\<close>

definition demo_note :: "string \<Rightarrow> AnkiNote" where
  "demo_note front =
     \<lparr>deckName = ''key point'', modelName = ''Basic'',
      note_fields = [(''Front'', front), (''Back'', ''an answer'')],
      tags = [''obsidian-plugin'']\<rparr>"

definition demo_store :: "AnkiNote list remote" where
  "demo_store =
     \<lparr>rpc_updateNoteFields = (\<lambda>s nid fs. (Inr (Response Null None), s)),
      rpc_addNotes = (\<lambda>s ns. (Inl ''AnkiConnect connection failed: HTTP 500'', s)),
      rpc_addNote = (\<lambda>s n.
         if n = demo_note ''q3''
         then (Inr (Response Null (Some ''cannot create note because it is a duplicate'')), s)
         else (Inr (Response (Val (length s + 1)) None), s @ [n]))\<rparr>"


definition demo_cloze :: AnkiNote where
  "demo_cloze =
     \<lparr>deckName = ''key point'', modelName = ''Cloze'',
      note_fields = [(''Text'', ''a {{c1::z}}''), (''Extra'', '''')],
      tags = [''obsidian-plugin'']\<rparr>"

definition demo_match :: NoteMatch where
  "demo_match = \<lparr>noteId = Some 7, existingFields = Some [(''Text'', ''a {{c1::b}}'')]\<rparr>"

section \<open>Facts about strings\<close>

lemma startsWith_iff: "startsWith s p \<longleftrightarrow> (\<exists>rest. s = p @ rest)"
  by (induction s p rule: startsWith.induct) auto

lemma includes_iff: "str_includes s sub \<longleftrightarrow> contains_text s sub"
proof (induction s)
  case Nil
  show ?case by (auto simp: contains_text_def)
next
  case (Cons c cs)
  show ?case
  proof
    assume "str_includes (c # cs) sub"
    then consider "startsWith (c # cs) sub" | "str_includes cs sub" by auto
    then show "contains_text (c # cs) sub"
    proof cases
      case 1
      then obtain rest where "c # cs = sub @ rest" by (auto simp: startsWith_iff)
      then have "c # cs = [] @ sub @ rest" by simp
      then show ?thesis unfolding contains_text_def by blast
    next
      case 2
      then obtain before after where "cs = before @ sub @ after"
        using Cons.IH by (auto simp: contains_text_def)
      then have "c # cs = (c # before) @ sub @ after" by simp
      then show ?thesis unfolding contains_text_def by blast
    qed
  next
    assume "contains_text (c # cs) sub"
    then obtain before after where eq: "c # cs = before @ sub @ after"
      by (auto simp: contains_text_def)
    show "str_includes (c # cs) sub"
    proof (cases before)
      case Nil
      with eq have "startsWith (c # cs) sub" by (auto simp: startsWith_iff)
      then show ?thesis by simp
    next
      case (Cons b bs)
      with eq have "cs = bs @ sub @ after" by simp
      then have "contains_text cs sub" unfolding contains_text_def by blast
      then show ?thesis using Cons.IH by simp
    qed
  qed
qed

section \<open>Similarity: the claims\<close>

lemma normalize_example: "normalize ''Hello,  World!'' = ''hello world''"
  by code_simp

lemma normalize_punctuation_example: "normalize ''a-b'' = ''a b''"
  by code_simp

lemma words_text_example: "words_text ''Hello,  World!'' = ''hello world''"
  by code_simp

lemma normalize_stated_example: "normalize_stated ''Hello,  World!'' = ''hello world''"
  by code_simp

subsection \<open>Lower case\<close>

lemma code_unit_lower_char:
  "is_upper_char c \<Longrightarrow> code_unit (lower_char c) = code_unit c + 32"
proof (cases c)
  case (Char b0 b1 b2 b3 b4 b5 b6 b7)
  assume up: "is_upper_char c"
  have "\<not> b5"
  proof
    assume b5
    with up Char show False
      by (simp add: is_upper_char_def code_unit_def Let_def) (cases b0; cases b1; cases b2; cases b3; cases b4; cases b6; cases b7; simp)
  qed
  with up Char show ?thesis
    by (simp add: lower_char_def code_unit_def)
qed

lemma code_unit_inj: "code_unit c = code_unit d \<Longrightarrow> c = d"
  by (simp add: code_unit_def)

lemma code_unit_char_of: "n < 256 \<Longrightarrow> code_unit (char_of n) = n"
  by (simp add: code_unit_def)

lemma code_unit_bound: "code_unit c < 256"
  by (simp add: code_unit_def)

lemma lower_char_spec: "lower_char c = lower_spec c"
proof (cases "is_upper_char c")
  case True
  then have n: "code_unit c + 32 < 256"
    by (auto simp: is_upper_char_def Let_def)
  have "code_unit (lower_char c) = code_unit (char_of (code_unit c + 32))"
    using code_unit_lower_char [OF True] code_unit_char_of [OF n] by simp
  then have l: "lower_char c = char_of (code_unit c + 32)"
    by (rule code_unit_inj)
  have "lower_spec c = char_of (code_unit c + 32)"
    using True by (auto simp: lower_spec_def is_upper_char_def Let_def)
  with l show ?thesis by simp
next
  case False
  then have l: "lower_char c = c"
    by (simp add: lower_char_def)
  have "lower_spec c = c"
    using False by (auto simp: lower_spec_def is_upper_char_def Let_def)
  with l show ?thesis by simp
qed

lemma toLowerCase_spec: "toLowerCase s = map lower_spec s"
  by (simp add: toLowerCase_def lower_char_spec)

subsection \<open>Runs and words\<close>

lemma runs_Nil: "runs P [] = []"
  by (subst runs.simps) simp

lemma runs_skip: "\<not> P c \<Longrightarrow> runs P (c # cs) = runs P cs"
  by (subst runs.simps, subst (2) runs.simps) simp

lemma runs_take:
  "P c \<Longrightarrow> runs P (c # cs) = (c # takeWhile P cs) # runs P (dropWhile P cs)"
  by (subst runs.simps) simp

lemma runs_words: "w \<in> set (runs P s) \<Longrightarrow> w \<noteq> [] \<and> (\<forall>x \<in> set w. P x)"
proof (induction s rule: length_induct)
  case (1 s)
  show ?case
  proof (cases s)
    case Nil
    with 1(2) show ?thesis by (simp add: runs_Nil)
  next
    case (Cons c cs)
    show ?thesis
    proof (cases "P c")
      case False
      with 1(2) Cons have "w \<in> set (runs P cs)" by (simp add: runs_skip)
      moreover have "length cs < length s" using Cons by simp
      ultimately show ?thesis using 1(1) by blast
    next
      case True
      with 1(2) Cons consider "w = c # takeWhile P cs" | "w \<in> set (runs P (dropWhile P cs))"
        by (auto simp: runs_take)
      then show ?thesis
      proof cases
        case 1
        with True show ?thesis by (auto dest: set_takeWhileD)
      next
        case 2
        have "length (dropWhile P cs) < length s"
          using Cons length_dropWhile_le [of P cs] by simp
        with 1(1) 2 show ?thesis by blast
      qed
    qed
  qed
qed

lemma runs_map: "runs P (map f s) = map (map f) (runs (\<lambda>x. P (f x)) s)"
proof (induction s rule: length_induct)
  case (1 s)
  show ?case
  proof (cases s)
    case Nil
    then show ?thesis by (simp add: runs_Nil)
  next
    case (Cons c cs)
    show ?thesis
    proof (cases "P (f c)")
      case False
      have "length cs < length s" using Cons by simp
      with 1 have "runs P (map f cs) = map (map f) (runs (\<lambda>x. P (f x)) cs)" by blast
      with False Cons show ?thesis by (simp add: runs_skip)
    next
      case True
      have "length (dropWhile (\<lambda>x. P (f x)) cs) < length s"
        using Cons length_dropWhile_le [of "\<lambda>x. P (f x)" cs] by simp
      with 1 have ih: "runs P (map f (dropWhile (\<lambda>x. P (f x)) cs))
          = map (map f) (runs (\<lambda>x. P (f x)) (dropWhile (\<lambda>x. P (f x)) cs))"
        by blast
      show ?thesis
        using True Cons ih
        by (simp add: runs_take takeWhile_map dropWhile_map comp_def)
    qed
  qed
qed

lemma join_words_Cons:
  "join_words (w # ws) = (if ws = [] then w else w @ CHR '' '' # join_words ws)"
  by (cases ws) simp_all

lemma join_words_empty:
  "[] \<notin> set ws \<Longrightarrow> join_words ws = [] \<longleftrightarrow> ws = []"
  by (cases ws) (auto simp: join_words_Cons)

subsection \<open>The normalization of the source yields the words of the text\<close>

lemma space_is_space: "is_space_char (CHR '' '')"
  by (simp add: is_space_char_def code_unit_def)

lemma collapse_ws_dropWhile:
  "dropWhile is_space_char (collapse_ws t) = collapse_ws (dropWhile is_space_char t)"
proof (induction t rule: collapse_ws.induct)
  case 1
  show ?case by simp
next
  case (2 c cs)
  show ?case
  proof (cases "is_space_char c")
    case True
    with 2 show ?thesis by (simp add: space_is_space)
  next
    case False
    then show ?thesis by simp
  qed
qed

lemma collapse_ws_word:
  "\<forall>x \<in> set u. \<not> is_space_char x \<Longrightarrow> collapse_ws (u @ r) = u @ collapse_ws r"
  by (induction u) auto

lemma rtrim_word:
  assumes "\<forall>x \<in> set u. \<not> is_space_char x"
  shows "rev (dropWhile is_space_char (rev u)) = u"
proof -
  have "dropWhile is_space_char (rev u) = rev u"
    using assms by (cases "rev u") auto
  then show ?thesis by simp
qed

lemma dropWhile_all:
  "\<forall>x \<in> set xs. P x \<Longrightarrow> dropWhile P (xs @ ys) = dropWhile P ys"
  by (induction xs) auto

lemma rtrim_append:
  assumes w: "\<forall>x \<in> set w. \<not> is_space_char x"
  shows "rev (dropWhile is_space_char (rev (w @ CHR '' '' # Y))) =
     (if rev (dropWhile is_space_char (rev Y)) = [] then w
      else w @ CHR '' '' # rev (dropWhile is_space_char (rev Y)))"
proof (cases "dropWhile is_space_char (rev Y) = []")
  case True
  then have all: "\<forall>x \<in> set (rev Y). is_space_char x"
    by (simp add: dropWhile_eq_Nil_conv)
  have "dropWhile is_space_char (rev Y @ CHR '' '' # rev w)
      = dropWhile is_space_char (CHR '' '' # rev w)"
    using all by (rule dropWhile_all)
  also have "\<dots> = dropWhile is_space_char (rev w)"
    by (simp add: space_is_space)
  also have "\<dots> = rev w"
    using w by (cases "rev w") auto
  finally show ?thesis using True by simp
next
  case False
  then obtain x where "x \<in> set (rev Y)" "\<not> is_space_char x"
    by (auto simp: dropWhile_eq_Nil_conv)
  then have "dropWhile is_space_char (rev Y @ CHR '' '' # rev w)
      = dropWhile is_space_char (rev Y) @ CHR '' '' # rev w"
    by (rule dropWhile_append1)
  with False show ?thesis by simp
qed

lemma trim_collapse_runs:
  "rev (dropWhile is_space_char (rev (collapse_ws (dropWhile is_space_char t))))
     = join_words (runs (\<lambda>c. \<not> is_space_char c) t)"
proof (induction t rule: length_induct)
  case (1 t)
  let ?ns = "\<lambda>c. \<not> is_space_char c"
  show ?case
  proof (cases t)
    case Nil
    then show ?thesis by (simp add: runs_Nil)
  next
    case (Cons c cs)
    show ?thesis
    proof (cases "is_space_char c")
      case True
      have "length cs < length t" using Cons by simp
      with 1 have "rev (dropWhile is_space_char (rev (collapse_ws (dropWhile is_space_char cs))))
          = join_words (runs ?ns cs)"
        by blast
      with True Cons show ?thesis by (simp add: runs_skip)
    next
      case False
      let ?w = "c # takeWhile ?ns cs"
      let ?r = "dropWhile ?ns cs"
      have w: "\<forall>x \<in> set ?w. \<not> is_space_char x"
        using False by (auto dest: set_takeWhileD)
      have split: "c # cs = ?w @ ?r" by simp
      have runs_t: "runs ?ns t = ?w # runs ?ns ?r"
        using False Cons by (simp add: runs_take)
      have lhs: "collapse_ws (dropWhile is_space_char t) = ?w @ collapse_ws ?r"
        using False Cons collapse_ws_word [OF w, of ?r] by (simp del: collapse_ws.simps)
      have len: "length ?r < length t"
        using Cons length_dropWhile_le [of ?ns cs] by simp
      with 1 have ih: "rev (dropWhile is_space_char (rev (collapse_ws (dropWhile is_space_char ?r))))
          = join_words (runs ?ns ?r)"
        by blast
      show ?thesis
      proof (cases ?r)
        case Nil
        have c0: "collapse_ws ?r = []" and r0: "runs ?ns ?r = []"
          unfolding Nil by (simp_all add: runs_Nil)
        show ?thesis
          unfolding lhs runs_t c0 r0 using rtrim_word [OF w] by simp
      next
        case (Cons x r')
        then have x: "is_space_char x"
          by (metis (mono_tags, lifting) dropWhile_eq_Cons_conv)
        have cr: "collapse_ws ?r = CHR '' '' # collapse_ws (dropWhile is_space_char ?r)"
          unfolding Cons using x by simp
        have noempty: "[] \<notin> set (runs ?ns ?r)"
          using runs_words by blast
        show ?thesis
          unfolding lhs runs_t cr rtrim_append [OF w] ih join_words_Cons
          using join_words_empty [OF noempty] by simp
      qed
    qed
  qed
qed

lemma trim_collapse_ws: "trim (collapse_ws t) = join_words (runs (\<lambda>c. \<not> is_space_char c) t)"
  unfolding trim_def collapse_ws_dropWhile by (rule trim_collapse_runs)

lemma word_not_space: "is_word_char c \<Longrightarrow> \<not> is_space_char c"
  by (auto simp: is_word_char_def is_space_char_def Let_def)

lemma separator_is_space:
  "\<not> is_space_char (if is_word_char c \<or> is_space_char c then c else CHR '' '') \<longleftrightarrow> is_word_char c"
  using word_not_space [of c] space_is_space by auto

lemma replace_non_word_words:
  "runs (\<lambda>c. \<not> is_space_char c) (replace_non_word t) = runs is_word_char t"
proof -
  let ?g = "\<lambda>c. if is_word_char c \<or> is_space_char c then c else CHR '' ''"
  have fn: "(\<lambda>c. \<not> is_space_char (?g c)) = is_word_char"
    using separator_is_space by (intro ext) simp
  have "runs (\<lambda>c. \<not> is_space_char c) (map ?g t) = map (map ?g) (runs (\<lambda>c. \<not> is_space_char (?g c)) t)"
    by (rule runs_map)
  also have "\<dots> = map (map ?g) (runs is_word_char t)"
    unfolding fn ..
  also have "\<dots> = map (\<lambda>w. w) (runs is_word_char t)"
  proof (rule map_cong [OF refl])
    fix w assume "w \<in> set (runs is_word_char t)"
    then have "\<forall>x \<in> set w. is_word_char x" using runs_words by blast
    then show "map ?g w = w" by (induction w) auto
  qed
  finally show ?thesis by (simp add: replace_non_word_def)
qed

lemma normalize_words_text: "normalize s = words_text s"
  unfolding normalize_def words_text_def trim_collapse_ws replace_non_word_words toLowerCase_spec ..

text \<open>
  C5, as stated. With punctuation stripped, \<open>a-b\<close> and \<open>ab\<close> are equal after normalization,
  and so are \<open>don't\<close> and \<open>dont\<close>: the statement makes each pair duplicates. The source
  replaces every punctuation character by a space, so that it separates words: it normalizes
  \<open>a-b\<close> to \<open>a b\<close>, and the check answers "changed" for both pairs.
\<close>

theorem punctuation_counterexample:
  "duplicate_stated ''a-b'' ''ab'' \<and> \<not> isContentSimilar ''a-b'' ''ab''
   \<and> duplicate_stated ''don't'' ''dont'' \<and> \<not> isContentSimilar ''don't'' ''dont''
   \<and> normalize ''a-b'' = ''a b'' \<and> normalize_stated ''a-b'' = ''ab''"
proof -
  have s1: "normalize_stated ''a-b'' = ''ab''" by code_simp
  have s2: "normalize_stated ''ab'' = ''ab''" by code_simp
  have s3: "normalize_stated ''don't'' = ''dont''" by code_simp
  have s4: "normalize_stated ''dont'' = ''dont''" by code_simp
  have n1: "normalize ''a-b'' = ''a b''" by code_simp
  have n2: "normalize ''ab'' = ''ab''" by code_simp
  have n3: "normalize ''don't'' = ''don t''" by code_simp
  have n4: "normalize ''dont'' = ''dont''" by code_simp
  show ?thesis
    unfolding duplicate_stated_def isContentSimilar_def Let_def s1 s2 s3 s4 n1 n2 n3 n4
    by simp
qed

text \<open>
  C5, amended. The similarity check answers "duplicate" for two texts exactly when their
  normalized texts are equal, or one normalized text contains the other and both are longer
  than 20 characters, where the normalized text consists of the words of the lower-cased
  text (its maximal runs of the letters a to z, digits and underscores) joined by single
  spaces: punctuation separates words like whitespace does, it is not stripped. Every other pair is
  "changed" (the check is false).
\<close>

theorem isContentSimilar_iff_words: "isContentSimilar a b \<longleftrightarrow> duplicate_words_spec a b"
  unfolding isContentSimilar_def duplicate_words_spec_def Let_def includes_iff normalize_words_text
  by auto

text \<open>
  C10. The similarity check is symmetric: exchanging the two texts does not change its answer.
\<close>

theorem isContentSimilar_sym: "isContentSimilar a b = isContentSimilar b a"
  unfolding isContentSimilar_def Let_def
  by auto

section \<open>AI enhancement: the claim\<close>

lemma enhanceAllCards_unconfigured:
  "enhanceAllCards env None questions context documentContext
     = Inl ''Gemini API key not configured''"
  by (simp add: enhanceAllCards_def)

lemma enhanceAllCards_configured:
  "enhanceAllCards env (Some client) questions context documentContext =
     (case generateContent env client (prompt_of env questions context documentContext) of
        Inl err \<Rightarrow> Inr questions
      | Inr text \<Rightarrow>
          (case json_match text of
             None \<Rightarrow> Inr questions
           | Some json \<Rightarrow>
               (case json_parse env json of
                  Inl err \<Rightarrow> Inr questions
                | Inr enhancedQuestions \<Rightarrow> Inr enhancedQuestions)))"
  unfolding enhanceAllCards_def prompt_of_def Let_def
  by (cases "truthy_text documentContext") simp_all

text \<open>
  C8. For every card list and context: when the client is configured, so that the single
  batch call is made, and that call fails or its answer cannot be parsed, the enhancement
  function returns the original card list unchanged and throws nothing.
\<close>

theorem enhanceAllCards_failure_returns_original:
  assumes "enhancement_failed env client questions context documentContext"
  shows "enhanceAllCards env (Some client) questions context documentContext = Inr questions"
  using assms
  unfolding enhanceAllCards_configured enhancement_failed_def
  by (auto split: sum.splits option.splits)

theorem enhanceAllCards_failure_witness:
  "enhancement_failed
     \<lparr>generateContent = (\<lambda>c p. Inr ''no cards''), json_stringify = (\<lambda>qs. ''[]''),
      json_parse = (\<lambda>j. Inr [])\<rparr>
     () [\<lparr>qtype = ShortAnswer, question = ''q'', answer = ''a'', options = None,
          explanation = None, clozeText = None\<rparr>] ''ctx'' None
   \<and> enhanceAllCards
     \<lparr>generateContent = (\<lambda>c p. Inr ''no cards''), json_stringify = (\<lambda>qs. ''[]''),
      json_parse = (\<lambda>j. Inr [])\<rparr>
     (Some ()) [\<lparr>qtype = ShortAnswer, question = ''q'', answer = ''a'', options = None,
          explanation = None, clozeText = None\<rparr>] ''ctx'' None
     = Inr [\<lparr>qtype = ShortAnswer, question = ''q'', answer = ''a'', options = None,
          explanation = None, clozeText = None\<rparr>]"
proof -
  have failed: "enhancement_failed
     \<lparr>generateContent = (\<lambda>c p. Inr ''no cards''), json_stringify = (\<lambda>qs. ''[]''),
      json_parse = (\<lambda>j. Inr [])\<rparr>
     () [\<lparr>qtype = ShortAnswer, question = ''q'', answer = ''a'', options = None,
          explanation = None, clozeText = None\<rparr>] ''ctx'' None"
    by (simp add: enhancement_failed_def json_match_def)
  show ?thesis
    using failed enhanceAllCards_failure_returns_original [OF failed] by simp
qed

section \<open>Bulk creation and its fallback: the claim\<close>

lemma addNote_in_fallback_log:
  "snd (snd (addNote_in_fallback R w n)) = snd w @ [AddNoteRequest n]"
  by (auto simp: addNote_in_fallback_def sendRequest_addNote_def split: prod.splits sum.splits)

lemma addNote_in_fallback_individual:
  "addNote_in_fallback R (s, log) n =
     (individual_result (fst (rpc_addNote R s n)),
      (snd (rpc_addNote R s n), log @ [AddNoteRequest n]))"
proof (cases "rpc_addNote R s n")
  case (Pair reply s')
  show ?thesis
  proof (cases reply)
    case (Inl thrown)
    with Pair show ?thesis
      by (simp add: addNote_in_fallback_def sendRequest_addNote_def individual_result_def
            rejected_def)
  next
    case (Inr r)
    show ?thesis
    proof (cases "error r")
      case None
      with Pair Inr show ?thesis
        by (simp add: addNote_in_fallback_def sendRequest_addNote_def individual_result_def
              rejected_def truthy_text_def)
    next
      case (Some e)
      with Pair Inr show ?thesis
        by (simp add: addNote_in_fallback_def sendRequest_addNote_def individual_result_def
              rejected_def truthy_text_def)
    qed
  qed
qed

lemma addNotes_fallback_individual:
  "addNotes_fallback R (s, log) ns =
     (map individual_result (individual_replies R s ns),
      (store_after_individual R s ns, log @ map AddNoteRequest ns))"
proof (induction ns arbitrary: s log)
  case Nil
  show ?case by simp
next
  case (Cons n ns)
  show ?case
    by (simp add: addNote_in_fallback_individual Cons.IH)
qed

lemma addNotes_fallback_log:
  "snd (snd (addNotes_fallback R w ns)) = snd w @ map AddNoteRequest ns"
  using addNotes_fallback_individual [of R "fst w" "snd w" ns] by simp












section \<open>The update policy: the claim\<close>

lemma update_requests_append:
  "update_requests (a @ b) = update_requests a @ update_requests b"
  by (induction a rule: update_requests.induct) auto

lemma updateNoteFields_log:
  "snd (snd (updateNoteFields R w nid fs)) = snd w @ [UpdateNoteFieldsRequest nid fs]"
  by (auto simp: updateNoteFields_def sendRequest_updateNoteFields_def
           split: prod.splits sum.splits)

lemma fieldsToUpdate_expected:
  "(the (noteId m), fieldsToUpdate n) = expected_update (n, m)"
  by (simp add: fieldsToUpdate_def expected_update_def update_field_def)

lemma reconcile_note_Update_found:
  "snd (group_world (reconcile_note R Update deck st n (Some m))) =
     snd (group_world st) @
       (if changed_and_found n m
        then [UpdateNoteFieldsRequest (the (noteId m)) (fieldsToUpdate n)] else [])"
proof (cases "changed_and_found n m")
  case True
  obtain ok w' where upd:
    "updateNoteFields R (group_world st) (the (noteId m)) (fieldsToUpdate n) = (ok, w')"
    by (cases "updateNoteFields R (group_world st) (the (noteId m)) (fieldsToUpdate n)")
  have "snd w' = snd (group_world st)
      @ [UpdateNoteFieldsRequest (the (noteId m)) (fieldsToUpdate n)]"
    using updateNoteFields_log [of R "group_world st" "the (noteId m)" "fieldsToUpdate n"] upd
    by simp
  with True upd show ?thesis
    by (simp add: reconcile_note_def changed_and_found_def existing_of_def Let_def)
next
  case False
  then show ?thesis
    by (auto simp: reconcile_note_def changed_and_found_def existing_of_def Let_def)
qed

lemma reconcile_note_unmatched:
  "snd (group_world (reconcile_note R b deck st n None)) = snd (group_world st)"
  by (simp add: reconcile_note_def match_found_def)

lemma reconcile_loop_Update_log:
  "snd (group_world (reconcile_loop R Update deck st ns ms)) =
     snd (group_world st) @
       map (\<lambda>p. UpdateNoteFieldsRequest (the (noteId (snd p))) (fieldsToUpdate (fst p)))
         (filter (\<lambda>p. changed_and_found (fst p) (snd p)) (zip ns ms))"
proof (induction R Update deck st ns ms rule: reconcile_loop.induct)
  case (1 R deck st ms)
  show ?case by simp
next
  case (2 R deck st n ns)
  then show ?case by (simp add: reconcile_note_unmatched)
next
  case (3 R deck st n ns m ms)
  then show ?case by (simp add: reconcile_note_Update_found)
qed

lemma update_requests_map:
  "update_requests (map (\<lambda>p. UpdateNoteFieldsRequest (f p) (g p)) ps) = map (\<lambda>p. (f p, g p)) ps"
  by (induction ps) auto

lemma update_requests_AddNote: "update_requests (map AddNoteRequest ns) = []"
  by (induction ns) auto

lemma addNotes_update_requests:
  "update_requests (snd (snd (addNotes R w ns))) = update_requests (snd w)"
proof -
  have fb: "update_requests (snd (snd (addNotes_fallback R w' ns))) = update_requests (snd w')"
    for w'
    by (simp add: addNotes_fallback_log update_requests_append update_requests_AddNote)
  show ?thesis
    unfolding addNotes_def sendRequest_addNotes_def
    by (auto simp: fb update_requests_append split: prod.splits sum.splits jsval.splits)
qed

lemmas char_class_defs =
  is_word_char_def is_space_char_def is_upper_char_def lower_char_def code_unit_def

lemma normalize_demo_new: "normalize ''a {{c1::z}}'' = ''a c1 z''"
  by (simp add: normalize_def trim_def replace_non_word_def toLowerCase_def char_class_defs)

lemma normalize_demo_old: "normalize ''a {{c1::b}}'' = ''a c1 b''"
  by (simp add: normalize_def trim_def replace_non_word_def toLowerCase_def char_class_defs)

lemma demo_changed: "changed_and_found demo_cloze demo_match"
  by (simp add: changed_and_found_def match_found_def demo_match_def demo_cloze_def
        existing_of_def note_differs_def field_value_def isContentSimilar_def
        normalize_demo_new normalize_demo_old)

lemma demo_update_log:
  "update_requests (snd (snd (processQuestionGroup demo_store (Some Update) ''key point'' []
      [demo_cloze] [demo_match] empty_result ([], [])))) = [(7, [(''Extra'', '''')])]"
proof -
  have step: "snd (group_world (reconcile_note demo_store Update ''key point''
      \<lparr>notesToCreate = [], updatedCount = 0, skippedCount = 0,
       group_result = empty_result, group_world = ([], [])\<rparr> demo_cloze (Some demo_match)))
    = [UpdateNoteFieldsRequest 7 [(''Extra'', '''')]]"
    unfolding reconcile_note_Update_found
    by (simp add: demo_changed) (simp add: demo_match_def demo_cloze_def fieldsToUpdate_def field_value_def)
  have created: "notesToCreate (reconcile_note demo_store Update ''key point''
      \<lparr>notesToCreate = [], updatedCount = 0, skippedCount = 0,
       group_result = empty_result, group_world = ([], [])\<rparr> demo_cloze (Some demo_match)) = []"
    using demo_changed
    by (simp add: reconcile_note_def changed_and_found_def existing_of_def Let_def
          split: prod.splits)
  show ?thesis
    by (simp add: processQuestionGroup_def Let_def created step)
qed

text \<open>
  C1, as the specification states it, fails for cloze records: the one request made for a
  changed cloze card writes the field Extra, not the free-text field Text.
\<close>

theorem update_field_counterexample:
  "map (\<lambda>r. map fst (snd r))
     (update_requests (snd (snd (processQuestionGroup demo_store (Some Update) ''key point'' []
        [demo_cloze] [demo_match] empty_result ([], []))))) = [[''Extra'']]
   \<and> [''Extra''] \<noteq> [answer_field_spec demo_cloze]"
proof
  show "map (\<lambda>r. map fst (snd r))
     (update_requests (snd (snd (processQuestionGroup demo_store (Some Update) ''key point'' []
        [demo_cloze] [demo_match] empty_result ([], []))))) = [[''Extra'']]"
    by (simp add: demo_update_log)
  show "[''Extra''] \<noteq> [answer_field_spec demo_cloze]"
    by (simp add: answer_field_spec_def demo_cloze_def)
qed

text \<open>
  C1, amended. Under the update policy the \<^verbatim>\<open>updateNoteFields\<close> requests of a group are
  exactly one request for every card that is changed and whose record was found, in the order
  of the cards; the field map of that request has exactly one key, Extra for a cloze record
  and Back for a front/back record, and so never the key Front nor the key Text.
\<close>

theorem processQuestionGroup_update_requests:
  "update_requests
     (snd (snd (processQuestionGroup R (Some Update) deck qs ns ms res (s, [])))) =
     map expected_update (filter (\<lambda>p. changed_and_found (fst p) (snd p)) (zip ns ms))
   \<and> update_field n \<noteq> ''Front'' \<and> update_field n \<noteq> ''Text''"
proof -
  let ?st = "reconcile_loop R Update deck
     \<lparr>notesToCreate = [], updatedCount = 0, skippedCount = 0,
      group_result = res, group_world = (s, [])\<rparr> ns ms"
  have loop: "update_requests (snd (group_world ?st)) =
      map expected_update (filter (\<lambda>p. changed_and_found (fst p) (snd p)) (zip ns ms))"
    by (simp add: reconcile_loop_Update_log update_requests_map fieldsToUpdate_expected)
  have world: "snd (processQuestionGroup R (Some Update) deck qs ns ms res (s, [])) =
      (if notesToCreate ?st = [] then group_world ?st
       else snd (addNotes R (group_world ?st) (notesToCreate ?st)))"
    by (simp add: processQuestionGroup_def Let_def split: prod.splits)
  have "update_requests
     (snd (snd (processQuestionGroup R (Some Update) deck qs ns ms res (s, [])))) =
     update_requests (snd (group_world ?st))"
    unfolding world by (simp add: addNotes_update_requests)
  with loop show ?thesis by (simp add: update_field_def)
qed

theorem processQuestionGroup_update_witness:
  "update_requests (snd (snd (processQuestionGroup demo_store (Some Update) ''key point'' []
      [demo_cloze, demo_note ''q1''] [demo_match] empty_result ([], []))))
     = [(7, [(''Extra'', '''')])]
   \<and> update_field demo_cloze \<noteq> ''Front'' \<and> update_field demo_cloze \<noteq> ''Text''"
  using processQuestionGroup_update_requests
    [of demo_store "''key point''" "[]" "[demo_cloze, demo_note ''q1'']" "[demo_match]"
        empty_result "[]" demo_cloze]
  by (simp add: demo_changed expected_update_def)
     (simp add: demo_match_def demo_cloze_def update_field_def field_value_def)

section \<open>Highlight extraction: the claim\<close>

lemma text_of_units_of: "text_of (units_of s) = s"
  by (simp add: text_of_def units_of_def code_unit_def comp_def)

lemma lazy_dot_sound:
  "lazy_dot s = Some inner \<Longrightarrow> (\<exists>rest. s = inner @ [EQUALS, EQUALS] @ rest) \<and> one_line inner"
proof (induction s arbitrary: inner)
  case Nil
  then show ?case by simp
next
  case (Cons c cs)
  show ?case
  proof (cases "startsWith (c # cs) [EQUALS, EQUALS]")
    case True
    with Cons.prems have "inner = []" by simp
    moreover from True obtain rest where "c # cs = [EQUALS, EQUALS] @ rest"
      unfolding startsWith_iff by blast
    ultimately show ?thesis by (auto simp: one_line_def)
  next
    case False
    with Cons.prems obtain inner' where
      c: "\<not> is_terminator_unit c" and tl: "lazy_dot cs = Some inner'" and inner: "inner = c # inner'"
      by (auto split: if_splits)
    from Cons.IH [OF tl] obtain rest where
      cs: "cs = inner' @ [EQUALS, EQUALS] @ rest" and lt: "one_line inner'"
      by blast
    with c inner show ?thesis by (auto simp: one_line_def)
  qed
qed

lemma lazy_dot_complete:
  "s = inner @ [EQUALS, EQUALS] @ rest \<Longrightarrow> one_line inner \<Longrightarrow>
     \<exists>found. lazy_dot s = Some found \<and> length found \<le> length inner"
proof (induction s arbitrary: inner)
  case Nil
  then show ?case by simp
next
  case (Cons c cs)
  show ?case
  proof (cases "startsWith (c # cs) [EQUALS, EQUALS]")
    case True
    then show ?thesis by simp
  next
    case False
    have "inner \<noteq> []"
    proof
      assume "inner = []"
      with Cons.prems(1) have "startsWith (c # cs) [EQUALS, EQUALS]"
        unfolding startsWith_iff by auto
      with False show False by simp
    qed
    then obtain inner' where inner: "inner = c # inner'" and cs: "cs = inner' @ [EQUALS, EQUALS] @ rest"
      using Cons.prems(1) by (cases inner) auto
    from Cons.prems(2) inner have c: "\<not> is_terminator_unit c" and ol: "one_line inner'"
      by (auto simp: one_line_def)
    from Cons.IH [OF cs ol] obtain found where "lazy_dot cs = Some found" "length found \<le> length inner'"
      by blast
    with False c inner show ?thesis by simp
  qed
qed

lemma highlight_at_sound:
  assumes "highlight_at s = Some m"
  shows "\<exists>inner rest. m = [EQUALS, EQUALS] @ inner @ [EQUALS, EQUALS] \<and> s = m @ rest \<and> one_line inner
           \<and> lazy_dot (drop 2 s) = Some inner"
proof -
  from assms have sw: "startsWith s [EQUALS, EQUALS]"
    by (auto simp: highlight_at_def split: if_splits)
  with assms obtain inner where ld: "lazy_dot (drop 2 s) = Some inner"
    and m: "m = [EQUALS, EQUALS] @ inner @ [EQUALS, EQUALS]"
    by (auto simp: highlight_at_def)
  from sw obtain t where s: "s = [EQUALS, EQUALS] @ t" unfolding startsWith_iff by blast
  then have "drop 2 s = t" by simp
  with lazy_dot_sound [OF ld] obtain rest where
    "t = inner @ [EQUALS, EQUALS] @ rest" "one_line inner"
    by auto
  with s m ld show ?thesis by auto
qed

lemma highlight_at_complete:
  assumes "delimited_at s inner" and "one_line inner"
  shows "\<exists>found. highlight_at s = Some ([EQUALS, EQUALS] @ found @ [EQUALS, EQUALS])
            \<and> length found \<le> length inner"
proof -
  from assms(1) obtain rest where s: "s = [EQUALS, EQUALS] @ inner @ [EQUALS, EQUALS] @ rest"
    unfolding delimited_at_def by blast
  then have sw: "startsWith s [EQUALS, EQUALS]" unfolding startsWith_iff by blast
  from s have d: "drop 2 s = inner @ [EQUALS, EQUALS] @ rest" by simp
  from lazy_dot_complete [OF d assms(2)] obtain found where
    "lazy_dot (drop 2 s) = Some found" "length found \<le> length inner" by blast
  with sw show ?thesis by (simp add: highlight_at_def)
qed

lemma highlight_at_None: "highlight_at s = None \<longleftrightarrow> \<not> occurrence_at s"
proof
  assume none: "highlight_at s = None"
  show "\<not> occurrence_at s"
  proof
    assume "occurrence_at s"
    then obtain inner where "delimited_at s inner" "one_line inner"
      unfolding occurrence_at_def by blast
    from highlight_at_complete [OF this] none show False by auto
  qed
next
  assume no: "\<not> occurrence_at s"
  show "highlight_at s = None"
  proof (cases "highlight_at s")
    case None
    then show ?thesis .
  next
    case (Some m)
    from highlight_at_sound [OF Some] obtain inner rest where
      "m = [EQUALS, EQUALS] @ inner @ [EQUALS, EQUALS]" "s = m @ rest" "one_line inner"
      by blast
    then have "delimited_at s inner" unfolding delimited_at_def by auto
    with \<open>one_line inner\<close> no show ?thesis unfolding occurrence_at_def by blast
  qed
qed

lemma occurrences_skip:
  assumes "\<not> occurrence_at (c # cs)" and "occurrences ms cs"
  shows "occurrences ms (c # cs)"
proof (cases ms)
  case Nil
  have "\<not> occurrence_at (drop i (c # cs))" if "i < length (c # cs)" for i
  proof (cases i)
    case 0
    with assms(1) show ?thesis by simp
  next
    case (Suc i')
    with that assms(2) Nil show ?thesis by simp
  qed
  with Nil show ?thesis by simp
next
  case (Cons m ms')
  with assms(2) obtain gap inner rest where
    cs: "cs = gap @ m @ rest" and
    quiet: "\<forall>i<length gap. \<not> occurrence_at (drop i cs)" and
    m: "m = [EQUALS, EQUALS] @ inner @ [EQUALS, EQUALS]" and ol: "one_line inner" and
    least: "\<forall>other. delimited_at (m @ rest) other \<and> one_line other \<longrightarrow> length inner \<le> length other" and
    more: "occurrences ms' rest"
    by auto
  have "\<not> occurrence_at (drop i (c # cs))" if "i < length (c # gap)" for i
  proof (cases i)
    case 0
    with assms(1) show ?thesis by simp
  next
    case (Suc i')
    with that quiet show ?thesis by simp
  qed
  moreover have "c # cs = (c # gap) @ m @ rest" using cs by simp
  ultimately have "\<exists>gap' inner' rest'. c # cs = gap' @ m @ rest'
      \<and> (\<forall>i<length gap'. \<not> occurrence_at (drop i (c # cs)))
      \<and> m = [EQUALS, EQUALS] @ inner' @ [EQUALS, EQUALS] \<and> one_line inner'
      \<and> (\<forall>other. delimited_at (m @ rest') other \<and> one_line other \<longrightarrow> length inner' \<le> length other)
      \<and> occurrences ms' rest'"
    using m ol least more by blast
  with Cons show ?thesis by (simp only: occurrences.simps)
qed

lemma highlight_at_least:
  assumes some: "highlight_at s = Some ([EQUALS, EQUALS] @ inner @ [EQUALS, EQUALS])"
    and other: "delimited_at s other" "one_line other"
  shows "length inner \<le> length other"
proof -
  from highlight_at_complete [OF other] obtain found where
    "highlight_at s = Some ([EQUALS, EQUALS] @ found @ [EQUALS, EQUALS])"
    "length found \<le> length other" by blast
  with some show ?thesis by simp
qed

lemma scan_gives_occurrences: "occurrences (extractHighlights s) s"
proof (induction s rule: extractHighlights.induct)
  case 1
  show ?case by simp
next
  case (2 c cs)
  show ?case
  proof (cases "highlight_at (c # cs)")
    case None
    then have "\<not> occurrence_at (c # cs)" by (simp add: highlight_at_None)
    with 2(1) [OF None] None show ?thesis by (simp add: occurrences_skip)
  next
    case (Some m)
    from highlight_at_sound [OF Some] obtain inner rest where
      m: "m = [EQUALS, EQUALS] @ inner @ [EQUALS, EQUALS]" and
      eq: "c # cs = m @ rest" and ol: "one_line inner" by blast
    from m have "max 1 (length m) = length m" by simp
    with eq have d: "drop (max 1 (length m)) (c # cs) = rest" by simp
    from 2(2) [OF Some] d have io: "occurrences (extractHighlights rest) rest" by simp
    have ex: "extractHighlights (c # cs) = m # extractHighlights rest"
      using Some d by simp
    have least: "\<forall>other. delimited_at (m @ rest) other \<and> one_line other \<longrightarrow> length inner \<le> length other"
      using highlight_at_least [of "c # cs" inner] Some m eq by auto
    have "c # cs = [] @ m @ rest" using eq by simp
    moreover have "\<forall>i<length ([] :: nat list). \<not> occurrence_at (drop i (c # cs))" by simp
    ultimately have "\<exists>gap inner' r. c # cs = gap @ m @ r
        \<and> (\<forall>i<length gap. \<not> occurrence_at (drop i (c # cs)))
        \<and> m = [EQUALS, EQUALS] @ inner' @ [EQUALS, EQUALS] \<and> one_line inner'
        \<and> (\<forall>other. delimited_at (m @ r) other \<and> one_line other \<longrightarrow> length inner' \<le> length other)
        \<and> occurrences (extractHighlights rest) r"
      using io m ol least by blast
    then show ?thesis by (simp only: ex occurrences.simps)
  qed
qed

lemma occurrences_unique: "occurrences ms s \<Longrightarrow> extractHighlights s = ms"
proof (induction s arbitrary: ms rule: extractHighlights.induct)
  case 1
  show ?case
  proof (cases ms)
    case Nil
    then show ?thesis by simp
  next
    case (Cons m ms')
    with 1 show ?thesis by auto
  qed
next
  case (2 c cs)
  show ?case
  proof (cases "highlight_at (c # cs)")
    case None
    then have no: "\<not> occurrence_at (c # cs)" by (simp add: highlight_at_None)
    have "occurrences ms cs"
    proof (cases ms)
      case Nil
      have "\<not> occurrence_at (drop i cs)" if "i < length cs" for i
      proof -
        from "2.prems" Nil have all: "\<forall>i<length (c # cs). \<not> occurrence_at (drop i (c # cs))"
          by (simp only: occurrences.simps)
        from that have "Suc i < length (c # cs)" by simp
        with all have "\<not> occurrence_at (drop (Suc i) (c # cs))" by blast
        then show ?thesis by simp
      qed
      with Nil show ?thesis by simp
    next
      case (Cons m ms')
      with "2.prems" obtain gap inner rest where
        s: "c # cs = gap @ m @ rest" and
        quiet: "\<forall>i<length gap. \<not> occurrence_at (drop i (c # cs))" and
        m: "m = [EQUALS, EQUALS] @ inner @ [EQUALS, EQUALS]" and ol: "one_line inner" and
        least: "\<forall>other. delimited_at (m @ rest) other \<and> one_line other \<longrightarrow> length inner \<le> length other" and
        more: "occurrences ms' rest"
        by auto
      have "gap \<noteq> []"
      proof
        assume "gap = []"
        with s m have "delimited_at (c # cs) inner" unfolding delimited_at_def by auto
        with ol no show False unfolding occurrence_at_def by blast
      qed
      then obtain gap' where gap: "gap = c # gap'" and cs: "cs = gap' @ m @ rest"
        using s by (cases gap) auto
      have "\<not> occurrence_at (drop i cs)" if "i < length gap'" for i
      proof -
        from that gap have "Suc i < length gap" by simp
        with quiet have "\<not> occurrence_at (drop (Suc i) (c # cs))" by blast
        then show ?thesis by simp
      qed
      with cs m ol least more have "\<exists>gap inner rest. cs = gap @ m @ rest
          \<and> (\<forall>i<length gap. \<not> occurrence_at (drop i cs))
          \<and> m = [EQUALS, EQUALS] @ inner @ [EQUALS, EQUALS] \<and> one_line inner
          \<and> (\<forall>other. delimited_at (m @ rest) other \<and> one_line other \<longrightarrow> length inner \<le> length other)
          \<and> occurrences ms' rest"
        by blast
      with Cons show ?thesis by (simp only: occurrences.simps)
    qed
    from 2(1) [OF None this] None show ?thesis by simp
  next
    case (Some m0)
    from highlight_at_sound [OF Some] obtain inner0 rest0 where
      m0: "m0 = [EQUALS, EQUALS] @ inner0 @ [EQUALS, EQUALS]" and
      eq0: "c # cs = m0 @ rest0" and ol0: "one_line inner0" by blast
    have occ: "occurrence_at (c # cs)"
      using Some by (cases "occurrence_at (c # cs)") (simp_all add: highlight_at_None [symmetric])
    show ?thesis
    proof (cases ms)
      case Nil
      with "2.prems" have all: "\<forall>i<length (c # cs). \<not> occurrence_at (drop i (c # cs))"
        by (simp only: occurrences.simps)
      have "0 < length (c # cs)" by simp
      with all have "\<not> occurrence_at (drop 0 (c # cs))" by blast
      with occ show ?thesis by simp
    next
      case (Cons m ms')
      with "2.prems" obtain gap inner rest where
        s: "c # cs = gap @ m @ rest" and
        quiet: "\<forall>i<length gap. \<not> occurrence_at (drop i (c # cs))" and
        m: "m = [EQUALS, EQUALS] @ inner @ [EQUALS, EQUALS]" and ol: "one_line inner" and
        least: "\<forall>other. delimited_at (m @ rest) other \<and> one_line other \<longrightarrow> length inner \<le> length other" and
        more: "occurrences ms' rest"
        by auto
      have gap: "gap = []"
      proof (cases gap)
        case Nil
        then show ?thesis .
      next
        case (Cons g gs)
        then have "0 < length gap" by simp
        with quiet have "\<not> occurrence_at (drop 0 (c # cs))" by blast
        with occ show ?thesis by simp
      qed
      with s have s': "c # cs = m @ rest" by simp
      have d0: "delimited_at (m @ rest) inner0"
        unfolding delimited_at_def using eq0 m0 s' by auto
      from least d0 ol0 have le1: "length inner \<le> length inner0" by blast
      have d1: "delimited_at (c # cs) inner"
        unfolding delimited_at_def using s' m by auto
      from highlight_at_least [OF Some [unfolded m0] d1 ol] have le2: "length inner0 \<le> length inner" .
      from le1 le2 have len: "length inner = length inner0" by simp
      have "[EQUALS, EQUALS] @ inner @ [EQUALS, EQUALS] @ rest
          = [EQUALS, EQUALS] @ inner0 @ [EQUALS, EQUALS] @ rest0"
        using s' eq0 m m0 by simp
      with len have "inner = inner0" "rest = rest0" by simp_all
      with m m0 have mm: "m0 = m" by simp
      from mm m have "max 1 (length m0) = length m0" by simp
      with eq0 have d: "drop (max 1 (length m0)) (c # cs) = rest0" by simp
      from more \<open>rest = rest0\<close> d have "occurrences ms' (drop (max 1 (length m0)) (c # cs))" by simp
      from 2(2) [OF Some this] have "extractHighlights rest0 = ms'" using d by simp
      with Some d mm Cons show ?thesis by simp
    qed
  qed
qed

lemmas highlight_eval = units_of_def code_unit_def highlight_at_def EQUALS_def is_terminator_unit_def

lemma extractHighlights_example:
  "extractHighlights (units_of ''a ==b== c ==d=='') = map units_of [''==b=='', ''==d=='']"
  by (simp add: highlight_eval)

lemma text_of_example: "map text_of (map units_of [''==b=='', ''==d=='']) = [''==b=='', ''==d=='']"
  by code_simp

lemma extractHighlights_answers_example:
  "map (remove_markers \<circ> text_of) (extractHighlights (units_of ''a ==b== c ==d=='')) = [''b'', ''d'']"
  using text_of_example unfolding extractHighlights_example by simp

lemma extractHighlights_two_lines_example:
  "extractHighlights (units_of ''==x\<newline>y== ==z=='') = [units_of ''== =='']"
  by (simp add: highlight_eval)

lemma extractHighlights_found:
  "extractHighlights s \<noteq> [] \<longleftrightarrow> (\<exists>i<length s. occurrence_at (drop i s))"
proof
  assume "extractHighlights s \<noteq> []"
  then obtain m ms where ex: "extractHighlights s = m # ms"
    by (cases "extractHighlights s") auto
  have "occurrences (m # ms) s"
    using scan_gives_occurrences [of s] unfolding ex .
  then obtain gap inner rest where
    s: "s = gap @ m @ rest" and
    m: "m = [EQUALS, EQUALS] @ inner @ [EQUALS, EQUALS]" and ol: "one_line inner"
    by auto
  have "delimited_at (drop (length gap) s) inner"
    unfolding delimited_at_def using s m by auto
  with ol have "occurrence_at (drop (length gap) s)"
    unfolding occurrence_at_def by blast
  moreover have "length gap < length s" using s m by simp
  ultimately show "\<exists>i<length s. occurrence_at (drop i s)" by blast
next
  assume some: "\<exists>i<length s. occurrence_at (drop i s)"
  show "extractHighlights s \<noteq> []"
  proof
    assume "extractHighlights s = []"
    with scan_gives_occurrences [of s] have "occurrences [] s" by simp
    with some show False by auto
  qed
qed

text \<open>
  C9, as stated. The text \<open>==x\<close>, line feed, \<open>y==\<close> is text delimited by double equals
  signs, and highlight extraction finds nothing in it: the inner text of a match never
  holds a line terminator.
\<close>

theorem highlight_two_lines_counterexample:
  "stated_occurrence_at (units_of ''==x\<newline>y=='')
   \<and> extractHighlights (units_of ''==x\<newline>y=='') = []"
proof
  have "units_of ''==x\<newline>y=='' = [EQUALS, EQUALS] @ units_of ''x\<newline>y'' @ [EQUALS, EQUALS] @ []"
    by (simp add: units_of_def code_unit_def EQUALS_def)
  then show "stated_occurrence_at (units_of ''==x\<newline>y=='')"
    unfolding stated_occurrence_at_def delimited_at_def by blast
  show "extractHighlights (units_of ''==x\<newline>y=='') = []"
    by (simp add: highlight_eval)
qed

text \<open>
  C9, amended. Highlight extraction finds every non-overlapping, non-nested occurrence of
  text delimited by double equals signs on one line: its result is the one list of
  occurrences taken from left to right, where each match is the delimited text at its
  place that closes first, its inner text holds no line terminator, and no delimited text on
  one line begins in front of it or, behind the last match, anywhere; it finds something
  exactly when some such text occurs. For the input \<open>a ==b== c ==d==\<close> it returns exactly the
  two matches \<open>==b==\<close> and \<open>==d==\<close>, which keep their delimiters, and the answers without
  delimiters are \<open>b\<close> and \<open>d\<close>.
\<close>

theorem extractHighlights_occurrences_iff:
  "extractHighlights (units_of ''a ==b== c ==d=='') = map units_of [''==b=='', ''==d=='']
   \<and> map (remove_markers \<circ> text_of) (extractHighlights (units_of ''a ==b== c ==d==''))
       = [''b'', ''d'']
   \<and> (occurrences ms content \<longleftrightarrow> extractHighlights content = ms)
   \<and> (extractHighlights content \<noteq> [] \<longleftrightarrow> (\<exists>i<length content. occurrence_at (drop i content)))"
proof -
  have "occurrences ms content \<longleftrightarrow> extractHighlights content = ms"
    using occurrences_unique scan_gives_occurrences by blast
  then show ?thesis
    using extractHighlights_example extractHighlights_answers_example extractHighlights_found
    by blast
qed

theorem extractHighlights_occurrences_witness:
  "occurrences (map units_of [''==b=='', ''==d=='']) (units_of ''a ==b== c ==d=='')
   \<and> (\<exists>i<length (units_of ''a ==b== c ==d=='').
         occurrence_at (drop i (units_of ''a ==b== c ==d=='')))"
proof -
  note inst = extractHighlights_occurrences_iff
    [of "map units_of [''==b=='', ''==d=='']" "units_of ''a ==b== c ==d==''"]
  from inst have ex: "extractHighlights (units_of ''a ==b== c ==d=='')
      = map units_of [''==b=='', ''==d=='']"
    by (rule conjunct1)
  from inst ex have "occurrences (map units_of [''==b=='', ''==d==''])
      (units_of ''a ==b== c ==d=='')"
    by blast
  moreover have "extractHighlights (units_of ''a ==b== c ==d=='') \<noteq> []"
    unfolding ex by simp
  ultimately show ?thesis using inst by blast
qed

section \<open>Trigger lines: the claims\<close>

text \<open>
  A line matches the expression of a trigger word when it consists of at most three
  asterisks, whitespace, the trigger word in any case, whitespace, a colon or a full stop,
  and at least one more character that is not a line terminator.
\<close>

lemma first_some_found:
  "x \<in> set xs \<Longrightarrow> f x \<noteq> None \<Longrightarrow> first_some f xs \<noteq> None"
proof (induction xs)
  case Nil
  then show ?case by simp
next
  case (Cons a xs)
  show ?case
  proof (cases "f a")
    case None
    with Cons show ?thesis by auto
  next
    case (Some y)
    then show ?thesis by simp
  qed
qed

lemma first_some_origin:
  "first_some f xs = Some y \<Longrightarrow> \<exists>x \<in> set xs. f x = Some y"
  by (induction xs) (auto split: option.splits)

lemma set_countdown: "set (countdown lo n) = {k. lo \<le> k \<and> k \<le> n}"
proof (induction n)
  case 0
  show ?case by auto
next
  case (Suc n)
  show ?case
  proof (cases "lo \<le> Suc n")
    case True
    then have "set (countdown lo (Suc n)) = insert (Suc n) {k. lo \<le> k \<and> k \<le> n}"
      using Suc by simp
    also have "\<dots> = {k. lo \<le> k \<and> k \<le> Suc n}"
      using True by auto
    finally show ?thesis .
  next
    case False
    then show ?thesis by auto
  qed
qed

lemma run_length_append:
  "\<forall>x \<in> set xs. P x \<Longrightarrow> length xs \<le> run_length P (xs @ ys)"
  by (simp add: run_length_def takeWhile_append2)

lemma after_separator_matches:
  assumes "\<not> is_line_terminator c"
  shows "after_separator (c # rest) \<noteq> None"
proof -
  have "dot_plus (drop 0 (c # rest)) \<noteq> None"
    using assms by (simp add: dot_plus_def)
  then have "(\<lambda>j. map_option (\<lambda>cap. (take j (c # rest) @ cap, cap))
      (dot_plus (drop j (c # rest)))) 0 \<noteq> None"
    by simp
  moreover have "0 \<in> set (countdown 0 (run_length is_space_char (c # rest)))"
    by (simp add: set_countdown)
  ultimately show ?thesis
    unfolding after_separator_def by (rule first_some_found [rotated])
qed

lemma separator_stage_matches:
  assumes "\<forall>x \<in> set gap. is_space_char x" and "sep = CHR '':'' \<or> sep = CHR ''.''"
    and "\<not> is_line_terminator c"
  shows "separator_stage (gap @ sep # c # rest) \<noteq> None"
proof -
  let ?s = "gap @ sep # c # rest"
  let ?f = "\<lambda>j. case drop j ?s of
               [] \<Rightarrow> None
             | c # rest \<Rightarrow>
                 (if c = CHR '':'' \<or> c = CHR ''.''
                  then map_option (\<lambda>(m, cap). (take j ?s @ c # m, cap)) (after_separator rest)
                  else None)"
  have "?f (length gap) \<noteq> None"
    using assms(2) after_separator_matches [OF assms(3), of rest] by auto
  moreover have "length gap \<in> set (countdown 0 (run_length is_space_char ?s))"
    using run_length_append [OF assms(1)] by (simp add: set_countdown)
  ultimately show ?thesis
    unfolding separator_stage_def by (rule first_some_found [rotated])
qed

lemma ci_prefix_append:
  assumes "map lower_char w = map lower_char triggerWord"
  shows "ci_prefix triggerWord (w @ rest)"
proof -
  from assms have "length w = length triggerWord" by (rule map_eq_imp_length_eq)
  with assms show ?thesis by (simp add: ci_prefix_def)
qed

lemma word_stage_matches:
  assumes "\<forall>x \<in> set ws. is_space_char x"
    and "map lower_char w = map lower_char triggerWord"
    and "separator_stage tail \<noteq> None"
  shows "word_stage triggerWord (ws @ w @ tail) \<noteq> None"
proof -
  let ?s = "ws @ w @ tail"
  let ?f = "\<lambda>j. let r = drop j ?s
            in if ci_prefix triggerWord r
               then map_option
                      (\<lambda>(m, cap). (take j ?s @ take (length triggerWord) r @ m, cap))
                      (separator_stage (drop (length triggerWord) r))
               else None"
  from assms(2) have len: "length w = length triggerWord"
    by (rule map_eq_imp_length_eq)
  have "?f (length ws) \<noteq> None"
    using assms(3) ci_prefix_append [OF assms(2), of tail] len by (simp add: Let_def)
  moreover have "length ws \<in> set (countdown 0 (run_length is_space_char ?s))"
    using run_length_append [OF assms(1)] by (simp add: set_countdown)
  ultimately show ?thesis
    unfolding word_stage_def by (rule first_some_found [rotated])
qed

lemma trigger_regex_matches:
  assumes "length stars \<le> 3" and "\<forall>x \<in> set stars. x = CHR ''*''"
    and "\<forall>x \<in> set ws. is_space_char x"
    and "map lower_char w = map lower_char triggerWord"
    and "\<forall>x \<in> set gap. is_space_char x"
    and "sep = CHR '':'' \<or> sep = CHR ''.''"
    and "\<not> is_line_terminator c"
  shows "trigger_regex triggerWord (stars @ ws @ w @ gap @ sep # c # rest) \<noteq> None"
proof -
  let ?line = "stars @ ws @ w @ gap @ sep # c # rest"
  let ?f = "\<lambda>k. map_option (\<lambda>(m, cap). (take k ?line @ m, cap))
              (word_stage triggerWord (drop k ?line))"
  have "word_stage triggerWord (ws @ w @ gap @ sep # c # rest) \<noteq> None"
    by (rule word_stage_matches [OF assms(3,4) separator_stage_matches [OF assms(5,6,7)]])
  then have "?f (length stars) \<noteq> None" by simp
  moreover have "length stars \<in> set (countdown 0 (min 3 (run_length (\<lambda>c. c = CHR ''*'') ?line)))"
    using run_length_append [OF assms(2), of "ws @ w @ gap @ sep # c # rest"] assms(1)
    by (simp add: set_countdown)
  ultimately show ?thesis
    unfolding trigger_regex_def by (rule first_some_found [rotated])
qed

lemma line_trigger_matches_count:
  "length (line_trigger_matches triggers line) =
     length (filter (\<lambda>w. trigger_regex w line \<noteq> None) triggers)"
  by (induction triggers) (auto split: option.splits)

lemma trigger_distinct_words_example:
  "checkForTriggerWords [''Thm'', ''Thm. 1''] ''Thm. 1: x'' = [''Thm. 1: x'', ''Thm. 1: x'']"
  by code_simp

lemma trigger_example_leading_asterisks:
  "trigger_regex ''definition'' ''**definition: a thing''
     = Some (''**definition: a thing'', ''a thing'')"
  by code_simp

lemma trigger_example_not_at_start:
  "trigger_regex ''definition'' ''predefinition: x'' = None"
  by code_simp

lemma trigger_example_colon_in_bold:
  "trigger_regex ''definition'' ''**definition:** a thing''
     = Some (''**definition:** a thing'', ''** a thing'')"
  by code_simp

text \<open>
  C2. For the trigger word \<open>definition\<close> the line \<open>**definition**: a thing\<close> is not
  matched by the code, although the claim and the comment of the code say that a trigger
  word in bold is allowed: the expression accepts asterisks in front of the trigger word
  only, and the closing asterisks stand between the word and the colon.
\<close>

theorem trigger_bold_word_not_matched:
  "trigger_regex ''definition'' ''**definition**: a thing'' = None
   \<and> checkForTriggerWords [''definition''] ''**definition**: a thing'' = []"
proof
  show "trigger_regex ''definition'' ''**definition**: a thing'' = None"
    by code_simp
  show "checkForTriggerWords [''definition''] ''**definition**: a thing'' = []"
    by code_simp
qed

text \<open>
  C3. A line that two configured trigger words match yields two trigger matches: the loop
  over the trigger words in \<^verbatim>\<open>checkForTriggerWords\<close> does not stop at the first match,
  as the loop in \<^verbatim>\<open>generateContextualTriggerCards\<close> does. With the trigger words
  \<open>definition\<close> and \<open>Definition\<close> the line \<open>definition: x\<close> is returned twice, and two
  cards are built from it.
\<close>

theorem trigger_line_matched_twice:
  "checkForTriggerWords [''definition'', ''Definition''] ''definition: x''
     = [''definition: x'', ''definition: x'']
   \<and> map answer
       (generateContextualTriggerCards [''definition'', ''Definition'']
          (checkForTriggerWords [''definition'', ''Definition''] ''definition: x'')
          ''definition: x'' (Some ''note''))
     = [''x'', ''x'']"
  by code_simp

section \<open>Cue lines: the claim\<close>

lemma first_some_countdown_top:
  assumes "lo \<le> n" and "f n = Some y"
  shows "first_some f (countdown lo n) = Some y"
proof (cases n)
  case 0
  with assms show ?thesis by simp
next
  case (Suc k)
  with assms show ?thesis by simp
qed

lemma take_within_run:
  "j \<le> length (takeWhile P xs) \<Longrightarrow> take j xs = take j (takeWhile P xs)"
proof (induction xs arbitrary: j)
  case Nil
  then show ?case by simp
next
  case (Cons x xs)
  show ?case
  proof (cases j)
    case 0
    then show ?thesis by simp
  next
    case (Suc k)
    with Cons.prems have "P x" by (auto split: if_splits)
    with Cons Suc show ?thesis by simp
  qed
qed

lemma first_some_cong:
  "(\<And>x. x \<in> set xs \<Longrightarrow> f x = g x) \<Longrightarrow> first_some f xs = first_some g xs"
  by (induction xs) (auto split: option.splits)

lemma line_rest_stop: "line_rest rest \<Longrightarrow> takeWhile cue_unit rest = []"
  by (auto simp: line_rest_def cue_unit_def)

lemma takeWhile_line:
  "line_rest rest \<Longrightarrow> takeWhile cue_unit (xs @ rest) = takeWhile cue_unit xs"
  by (induction xs) (auto simp: line_rest_stop)

lemma dropWhile_line:
  "line_rest rest \<Longrightarrow> dropWhile cue_unit (xs @ rest) = dropWhile cue_unit xs @ rest"
proof (induction xs)
  case Nil
  then have "dropWhile cue_unit rest = rest"
    by (auto simp: line_rest_def cue_unit_def)
  then show ?case by simp
next
  case (Cons x xs)
  then show ?case by simp
qed

lemma startsWith_line:
  assumes "line_rest rest"
  shows "startsWith (r @ rest) [COLON, COLON] = startsWith r [COLON, COLON]"
proof (cases r)
  case Nil
  with assms show ?thesis by (auto simp: line_rest_def COLON_def LINE_FEED_def)
next
  case (Cons x r')
  show ?thesis
  proof (cases r')
    case Nil
    with Cons assms show ?thesis by (auto simp: line_rest_def COLON_def LINE_FEED_def)
  next
    case (Cons y r'')
    with \<open>r = x # r'\<close> show ?thesis by simp
  qed
qed

lemma at_line_end_rest: "line_rest rest \<Longrightarrow> at_line_end rest"
  by (auto simp: line_rest_def at_line_end_def is_terminator_unit_def LINE_FEED_def)

lemma at_line_end_line:
  assumes "line_rest rest" and "j \<le> length r2"
  shows "at_line_end (drop j (r2 @ rest)) = at_line_end (drop j r2)"
proof (cases "j = length r2")
  case True
  with assms(1) show ?thesis by (simp add: at_line_end_rest) (simp add: at_line_end_def)
next
  case False
  with assms(2) have "j < length r2" by simp
  then obtain x t where "drop j r2 = x # t"
    by (metis Cons_nth_drop_Suc)
  with assms(2) show ?thesis by (simp add: at_line_end_def)
qed

lemma cue_at_line: 
  assumes rest: "line_rest rest"
  shows "cue_at (l @ rest) = cue_at l"
proof (cases "startsWith (dropWhile cue_unit l) [COLON, COLON]")
  case False
  then show ?thesis
    unfolding cue_at_def Let_def dropWhile_line [OF rest] startsWith_line [OF rest] by simp
next
  case True
  then obtain r2 where r: "dropWhile cue_unit l = [COLON, COLON] @ r2"
    unfolding startsWith_iff by blast
  have d2: "drop 2 (dropWhile cue_unit l @ rest) = r2 @ rest" "drop 2 (dropWhile cue_unit l) = r2"
    unfolding r by simp_all
  have run: "run_length cue_unit (r2 @ rest) = run_length cue_unit r2"
    unfolding run_length_def takeWhile_line [OF rest] ..
  have fs: "first_some
      (\<lambda>j. if at_line_end (drop j (r2 @ rest))
           then Some (takeWhile cue_unit l @ [COLON, COLON] @ take j (r2 @ rest)) else None)
      (countdown 1 (run_length cue_unit r2))
    = first_some
      (\<lambda>j. if at_line_end (drop j r2)
           then Some (takeWhile cue_unit l @ [COLON, COLON] @ take j r2) else None)
      (countdown 1 (run_length cue_unit r2))"
  proof (rule first_some_cong)
    fix j assume "j \<in> set (countdown 1 (run_length cue_unit r2))"
    then have "j \<le> length (takeWhile cue_unit r2)"
      by (simp add: set_countdown run_length_def)
    also have "\<dots> \<le> length r2" by (rule length_takeWhile_le)
    finally have j: "j \<le> length r2" .
    then show "(if at_line_end (drop j (r2 @ rest))
           then Some (takeWhile cue_unit l @ [COLON, COLON] @ take j (r2 @ rest)) else None)
        = (if at_line_end (drop j r2)
           then Some (takeWhile cue_unit l @ [COLON, COLON] @ take j r2) else None)"
      using at_line_end_line [OF rest j] by simp
  qed
  show ?thesis
    unfolding cue_at_def Let_def dropWhile_line [OF rest] takeWhile_line [OF rest]
      startsWith_line [OF rest] d2 run
    using True fs by simp
qed

lemma cue_unit_colon: "\<forall>x \<in> set xs. cue_unit x \<Longrightarrow> COLON \<notin> set xs"
  by (auto simp: cue_unit_def)

lemma cue_at_sound:
  assumes some: "cue_at s = Some m"
  shows "\<exists>pre suf d. m = pre @ [COLON, COLON] @ suf \<and> s = m @ d \<and> at_line_end d
           \<and> COLON \<notin> set pre \<and> suf \<noteq> [] \<and> COLON \<notin> set suf"
proof -
  let ?pre = "takeWhile cue_unit s"
  let ?r = "dropWhile cue_unit s"
  let ?r2 = "drop 2 ?r"
  from some have sw: "startsWith ?r [COLON, COLON]"
    unfolding cue_at_def Let_def by (simp split: if_splits)
  with some have fs: "first_some
      (\<lambda>j. if at_line_end (drop j ?r2) then Some (?pre @ [COLON, COLON] @ take j ?r2) else None)
      (countdown 1 (run_length cue_unit ?r2)) = Some m"
    unfolding cue_at_def Let_def by simp
  from first_some_origin [OF fs] obtain j where
    j: "j \<in> set (countdown 1 (run_length cue_unit ?r2))" and
    fj: "(if at_line_end (drop j ?r2) then Some (?pre @ [COLON, COLON] @ take j ?r2) else None) = Some m"
    by blast
  from fj have ale: "at_line_end (drop j ?r2)" and m: "m = ?pre @ [COLON, COLON] @ take j ?r2"
    by (auto split: if_splits)
  from j have j1: "1 \<le> j" and jrun: "j \<le> length (takeWhile cue_unit ?r2)"
    by (auto simp: set_countdown run_length_def)
  from sw obtain t where r: "?r = [COLON, COLON] @ t" unfolding startsWith_iff by blast
  then have r2: "?r2 = t" by simp
  have s: "s = ?pre @ [COLON, COLON] @ ?r2"
    using takeWhile_dropWhile_id [of cue_unit s] r r2 by simp
  have tk: "take j ?r2 = take j (takeWhile cue_unit ?r2)"
    by (rule take_within_run [OF jrun])
  have suf_cue: "\<forall>x \<in> set (take j ?r2). cue_unit x"
    unfolding tk by (meson in_set_takeD set_takeWhileD)
  have pre_cue: "\<forall>x \<in> set ?pre. cue_unit x"
    by (meson set_takeWhileD)
  have "length (take j ?r2) = j"
    unfolding tk using jrun by simp
  with j1 have suf_ne: "take j ?r2 \<noteq> []" by auto
  have "s = (?pre @ [COLON, COLON] @ take j ?r2) @ drop j ?r2"
    using s by (metis append.assoc append_take_drop_id)
  then have sm: "s = m @ drop j ?r2" unfolding m .
  from m sm ale cue_unit_colon [OF pre_cue] suf_ne cue_unit_colon [OF suf_cue]
  show ?thesis by blast
qed

lemma cue_at_complete:
  assumes l: "l = pre @ [COLON, COLON] @ suf" and pre: "COLON \<notin> set pre" and suf: "suf \<noteq> []"
    and sufc: "COLON \<notin> set suf" and lf: "LINE_FEED \<notin> set l"
  shows "cue_at l = Some l"
proof -
  have pre_cue: "\<forall>x \<in> set pre. cue_unit x" and suf_cue: "\<forall>x \<in> set suf. cue_unit x"
    using pre sufc lf l by (auto simp: cue_unit_def)
  have eq: "l = pre @ COLON # (COLON # suf)"
    using l by simp
  have nc: "\<not> cue_unit COLON" by (simp add: cue_unit_def)
  have tw: "takeWhile cue_unit l = pre"
    unfolding eq using pre_cue nc by (induction pre) auto
  have dw: "dropWhile cue_unit l = [COLON, COLON] @ suf"
    unfolding eq using pre_cue nc by (induction pre) auto
  have run: "run_length cue_unit suf = length suf"
    unfolding run_length_def using suf_cue by (simp add: takeWhile_eq_all_conv [THEN iffD2])
  have len: "1 \<le> length suf" using suf by (cases suf) auto
  have sw: "startsWith ([COLON, COLON] @ suf) [COLON, COLON]"
    unfolding startsWith_iff by blast
  have d2: "drop 2 ([COLON, COLON] @ suf) = suf"
    by simp
  have top: "(\<lambda>j. if at_line_end (drop j suf)
                  then Some (pre @ [COLON, COLON] @ take j suf) else None) (length suf)
      = Some (pre @ [COLON, COLON] @ suf)"
    by (simp add: at_line_end_def)
  have fs: "first_some
      (\<lambda>j. if at_line_end (drop j suf) then Some (pre @ [COLON, COLON] @ take j suf)
           else None)
      (countdown 1 (run_length cue_unit suf)) = Some (pre @ [COLON, COLON] @ suf)"
    unfolding run
    by (rule first_some_countdown_top
          [where f = "\<lambda>j. if at_line_end (drop j suf)
                         then Some (pre @ [COLON, COLON] @ take j suf) else None",
           OF len top])
  show ?thesis
    unfolding cue_at_def Let_def tw dw d2 using sw fs l by simp
qed

lemma cue_scan_rest:
  assumes "line_rest rest"
  shows "cue_scan b rest = (case rest of [] \<Rightarrow> [] | x # t \<Rightarrow> cue_scan True t)"
proof (cases rest)
  case Nil
  then show ?thesis by simp
next
  case (Cons x t)
  with assms have x: "x = LINE_FEED" by (simp add: line_rest_def)
  have "cue_at (LINE_FEED # t) = None"
    by (simp add: cue_at_def cue_unit_def COLON_def LINE_FEED_def)
  moreover have "is_terminator_unit LINE_FEED"
    by (simp add: is_terminator_unit_def LINE_FEED_def)
  ultimately show ?thesis using Cons x by simp
qed

lemma cue_scan_line:
  assumes rest: "line_rest rest"
  shows "cue_scan b (l @ rest) = cue_scan b l @ (case rest of [] \<Rightarrow> [] | x # t \<Rightarrow> cue_scan True t)"
proof (induction l arbitrary: b rule: length_induct)
  case (1 l)
  show ?case
  proof (cases l)
    case Nil
    then show ?thesis using cue_scan_rest [OF rest] by simp
  next
    case (Cons c cs)
    let ?a = "if b then cue_at (c # cs) else None"
    have at: "(if b then cue_at (c # cs @ rest) else None) = ?a"
      using cue_at_line [OF rest, of "c # cs"] by simp
    show ?thesis
    proof (cases ?a)
      case None
      have "length cs < length l" using Cons by simp
      with 1 have "cue_scan (is_terminator_unit c) (cs @ rest)
          = cue_scan (is_terminator_unit c) cs @ (case rest of [] \<Rightarrow> [] | x # t \<Rightarrow> cue_scan True t)"
        by blast
      moreover have "cue_scan b (c # cs @ rest) = cue_scan (is_terminator_unit c) (cs @ rest)"
        using at None by simp
      moreover have "cue_scan b (c # cs) = cue_scan (is_terminator_unit c) cs"
        using None by simp
      ultimately show ?thesis using Cons by simp
    next
      case (Some m)
      then have "cue_at (c # cs) = Some m" by (simp split: if_splits)
      from cue_at_sound [OF this] obtain d where
        eq: "c # cs = m @ d" and m: "m \<noteq> []" by auto
      from m have mx: "max 1 (length m) = length m"
        by (cases m) auto
      have tk: "take (length m) (c # cs @ rest) = m" "take (length m) (c # cs) = m"
        using eq by (metis append_Cons append.assoc append_eq_conv_conj, metis append_eq_conv_conj)
      have dr: "drop (length m) (c # cs @ rest) = d @ rest" "drop (length m) (c # cs) = d"
        using eq by (metis append_Cons append.assoc append_eq_conv_conj, metis append_eq_conv_conj)
      have "length d < length l" using eq m Cons
        by (metis length_append length_greater_0_conv less_add_same_cancel2)
      with 1 have ih: "cue_scan (is_terminator_unit (last m)) (d @ rest)
          = cue_scan (is_terminator_unit (last m)) d @ (case rest of [] \<Rightarrow> [] | x # t \<Rightarrow> cue_scan True t)"
        by blast
      have a: "cue_scan b (c # cs @ rest) = m # cue_scan (is_terminator_unit (last m)) (d @ rest)"
        using at Some mx tk(1) dr(1) by simp
      have b: "cue_scan b (c # cs) = m # cue_scan (is_terminator_unit (last m)) d"
        using Some mx tk(2) dr(2) by simp
      show ?thesis
        using a b ih Cons by simp
    qed
  qed
qed

lemma terminator_not_colon: "is_terminator_unit x \<Longrightarrow> x \<noteq> COLON"
  by (auto simp: is_terminator_unit_def COLON_def)

lemma cue_scan_cue_line:
  assumes "cue_shape l" and "LINE_FEED \<notin> set l"
  shows "cue_scan True l = [l]"
proof -
  from assms(1) obtain pre suf where l: "l = pre @ [COLON, COLON] @ suf" and
    "COLON \<notin> set pre" "suf \<noteq> []" "COLON \<notin> set suf"
    unfolding cue_shape_def by blast
  from cue_at_complete [OF this assms(2)] have at: "cue_at l = Some l" .
  from l have "l \<noteq> []" by simp
  then obtain c cs where cs: "l = c # cs" by (cases l) auto
  then have mx: "max 1 (length l) = length l" by simp
  show ?thesis
    using at mx unfolding cs by simp
qed

lemma cue_at_no_separator:
  assumes "\<not> contains_text s [COLON, COLON]"
  shows "cue_at s = None"
proof -
  have "\<not> startsWith (dropWhile cue_unit s) [COLON, COLON]"
  proof
    assume "startsWith (dropWhile cue_unit s) [COLON, COLON]"
    then obtain t where "dropWhile cue_unit s = [COLON, COLON] @ t"
      unfolding startsWith_iff by blast
    then have "s = takeWhile cue_unit s @ [COLON, COLON] @ t"
      using takeWhile_dropWhile_id [of cue_unit s] by simp
    with assms show False unfolding contains_text_def by blast
  qed
  then show ?thesis by (simp add: cue_at_def Let_def)
qed

lemma cue_scan_no_separator:
  "\<not> contains_text s [COLON, COLON] \<Longrightarrow> cue_scan b s = []"
proof (induction s arbitrary: b)
  case Nil
  show ?case by simp
next
  case (Cons c cs)
  have "\<not> contains_text cs [COLON, COLON]"
  proof
    assume "contains_text cs [COLON, COLON]"
    then obtain p q where "cs = p @ [COLON, COLON] @ q" unfolding contains_text_def by blast
    then have "c # cs = (c # p) @ [COLON, COLON] @ q" by simp
    with Cons.prems show False unfolding contains_text_def by blast
  qed
  from Cons.IH [OF this] cue_at_no_separator [OF Cons.prems] show ?case by simp
qed

lemma cue_scan_quiet:
  "\<forall>x \<in> set s. \<not> is_terminator_unit x \<Longrightarrow> cue_scan False (s @ [e]) = []"
  by (induction s) auto

lemma cue_scan_tidy_rest:
  assumes "tidy_line l"
  shows "cue_scan False l = []"
proof (cases l rule: rev_cases)
  case Nil
  then show ?thesis by simp
next
  case (snoc s e)
  with assms have "\<forall>x \<in> set s. \<not> is_terminator_unit x"
    by (simp add: tidy_line_def list_all_iff)
  then show ?thesis unfolding snoc by (rule cue_scan_quiet)
qed

lemma cue_at_tidy:
  assumes some: "cue_at l = Some m" and tidy: "tidy_line l"
  shows "cue_shape l"
proof -
  from cue_at_sound [OF some] obtain pre suf d where
    m: "m = pre @ [COLON, COLON] @ suf" and l: "l = m @ d" and d: "at_line_end d" and
    pre: "COLON \<notin> set pre" and suf: "suf \<noteq> []" "COLON \<notin> set suf"
    by blast
  show ?thesis
  proof (cases d)
    case Nil
    with l m pre suf show ?thesis unfolding cue_shape_def by auto
  next
    case (Cons x d')
    with d have x: "is_terminator_unit x" by (simp add: at_line_end_def)
    have "d' = []"
    proof (rule ccontr)
      assume "d' \<noteq> []"
      then have "butlast l = m @ x # butlast d'" using l Cons by (simp add: butlast_append)
      with tidy have "\<not> is_terminator_unit x" by (simp add: tidy_line_def)
      with x show False by simp
    qed
    with l m Cons have "l = pre @ [COLON, COLON] @ (suf @ [x])" by simp
    moreover have "COLON \<notin> set (suf @ [x])"
      using suf(2) terminator_not_colon [OF x] by auto
    ultimately show ?thesis using pre unfolding cue_shape_def by blast
  qed
qed

lemma tidy_line_tl: "tidy_line (c # cs) \<Longrightarrow> tidy_line cs"
  by (cases cs) (auto simp: tidy_line_def)

lemma cue_scan_tidy:
  assumes tidy: "tidy_line l" and no: "\<not> cue_shape l"
  shows "cue_scan True l = []"
proof (cases l)
  case Nil
  then show ?thesis by simp
next
  case (Cons c cs)
  have at: "cue_at (c # cs) = None"
  proof (cases "cue_at (c # cs)")
    case None
    then show ?thesis .
  next
    case (Some m)
    from cue_at_tidy [OF Some tidy [unfolded Cons]] no Cons show ?thesis by simp
  qed
  show ?thesis
  proof (cases cs)
    case Nil
    with at Cons show ?thesis by simp
  next
    case (Cons d ds)
    with tidy \<open>l = c # cs\<close> have "\<not> is_terminator_unit c" by (simp add: tidy_line_def)
    moreover have "cue_scan False cs = []"
      using cue_scan_tidy_rest [OF tidy_line_tl [OF tidy [unfolded \<open>l = c # cs\<close>]]] .
    ultimately show ?thesis using at \<open>l = c # cs\<close> by simp
  qed
qed

lemma cue_scan_plain_line:
  assumes "LINE_FEED \<notin> set l"
    and "tidy_line l \<or> cue_shape l \<or> \<not> contains_text l [COLON, COLON]"
  shows "cue_scan True l = (if cue_shape l then [l] else [])"
proof (cases "cue_shape l")
  case True
  with cue_scan_cue_line [OF True assms(1)] show ?thesis by simp
next
  case False
  with assms(2) consider "tidy_line l" | "\<not> contains_text l [COLON, COLON]" by blast
  then have "cue_scan True l = []"
  proof cases
    case 1
    from cue_scan_tidy [OF 1 False] show ?thesis .
  next
    case 2
    then show ?thesis by (rule cue_scan_no_separator)
  qed
  with False show ?thesis by simp
qed

lemma split_units_single: "LINE_FEED \<notin> set l \<Longrightarrow> split_units l = [l]"
  by (induction l) auto

lemma split_units_append:
  "LINE_FEED \<notin> set l \<Longrightarrow> split_units (l @ LINE_FEED # t) = l # split_units t"
  by (induction l) auto

lemma line_decomposition:
  obtains l rest where "s = l @ rest" "LINE_FEED \<notin> set l" "line_rest rest"
proof
  show "s = takeWhile (\<lambda>c. c \<noteq> LINE_FEED) s @ dropWhile (\<lambda>c. c \<noteq> LINE_FEED) s" by simp
  show "LINE_FEED \<notin> set (takeWhile (\<lambda>c. c \<noteq> LINE_FEED) s)"
  proof
    assume "LINE_FEED \<in> set (takeWhile (\<lambda>c. c \<noteq> LINE_FEED) s)"
    then have "LINE_FEED \<noteq> LINE_FEED" by (rule set_takeWhileD [THEN conjunct2])
    then show False by simp
  qed
  show "line_rest (dropWhile (\<lambda>c. c \<noteq> LINE_FEED) s)"
  proof (cases "dropWhile (\<lambda>c. c \<noteq> LINE_FEED) s")
    case Nil
    then show ?thesis by (simp add: line_rest_def)
  next
    case (Cons x t)
    then have "x = LINE_FEED" by (simp add: dropWhile_eq_Cons_conv)
    with Cons show ?thesis by (simp add: line_rest_def)
  qed
qed

lemma cue_scan_all_lines:
  "cue_scan True s = concat (map (cue_scan True) (split_units s))"
proof (induction s rule: length_induct)
  case (1 s)
  obtain l rest where s: "s = l @ rest" and lf: "LINE_FEED \<notin> set l" and rest: "line_rest rest"
    by (rule line_decomposition)
  show ?case
  proof (cases rest)
    case Nil
    with s lf show ?thesis by (simp add: split_units_single)
  next
    case (Cons x t)
    with rest have x: "x = LINE_FEED" by (simp add: line_rest_def)
    from s Cons have "length t < length s" by simp
    with 1 have ih: "cue_scan True t = concat (map (cue_scan True) (split_units t))"
      by blast
    have "cue_scan True (l @ rest) = cue_scan True l @ cue_scan True t"
      using cue_scan_line [OF rest, of True l] Cons by simp
    then show ?thesis
      unfolding s Cons x using ih by (simp add: split_units_append [OF lf])
  qed
qed

lemma split_units_no_feed: "l \<in> set (split_units s) \<Longrightarrow> LINE_FEED \<notin> set l"
proof (induction s arbitrary: l)
  case Nil
  then show ?case by simp
next
  case (Cons c cs)
  show ?case
  proof (cases "c = LINE_FEED")
    case True
    with Cons show ?thesis by auto
  next
    case False
    show ?thesis
    proof (cases "split_units cs")
      case Nil
      with False Cons.prems show ?thesis by simp
    next
      case (Cons l0 ls)
      with False Cons.prems have "l = c # l0 \<or> l \<in> set ls" by simp
      then show ?thesis
      proof
        assume "l = c # l0"
        moreover have "LINE_FEED \<notin> set l0" using Cons.IH [of l0] Cons by simp
        ultimately show ?thesis using False by auto
      next
        assume "l \<in> set ls"
        then show ?thesis using Cons.IH [of l] Cons by simp
      qed
    qed
  qed
qed

lemma concat_filter_singletons:
  "(\<And>x. x \<in> set xs \<Longrightarrow> f x = (if P x then [x] else [])) \<Longrightarrow> concat (map f xs) = filter P xs"
  by (induction xs) auto

lemma cue_scan_lines:
  assumes "plain_lines s"
  shows "cue_scan True s = filter cue_shape (split_units s)"
  unfolding cue_scan_all_lines [of s]
proof (rule concat_filter_singletons)
  fix l assume l: "l \<in> set (split_units s)"
  with assms have "tidy_line l \<or> cue_shape l \<or> \<not> contains_text l [COLON, COLON]"
    unfolding plain_lines_def by blast
  with split_units_no_feed [OF l] show "cue_scan True l = (if cue_shape l then [l] else [])"
    by (rule cue_scan_plain_line)
qed

lemmas cue_eval = units_of_def code_unit_def extractRemNoteCues_def cue_at_def cue_unit_def
  at_line_end_def run_length_def is_terminator_unit_def COLON_def LINE_FEED_def EQUALS_def

lemma cue_example: "extractRemNoteCues (units_of ''What is X::It is Y'') = [units_of ''What is X::It is Y'']"
  by (simp add: cue_eval)

lemma cue_two_separators_example: "extractRemNoteCues (units_of ''a::b::c'') = []"
  by (simp add: cue_eval)

lemma cue_card_example:
  "generateContextualQACards (map text_of (extractRemNoteCues (units_of ''What is X::It is Y'')))
     ''What is X::It is Y'' (Some ''note'')
   = [\<lparr>qtype = ShortAnswer, question = ''note.md\<newline> What is X'', answer = ''It is Y'',
       options = None, explanation = None, clozeText = None\<rparr>]"
proof -
  have "generateContextualQACards [''What is X::It is Y''] ''What is X::It is Y'' (Some ''note'')
   = [\<lparr>qtype = ShortAnswer, question = ''note.md\<newline> What is X'', answer = ''It is Y'',
       options = None, explanation = None, clozeText = None\<rparr>]"
    by code_simp
  then show ?thesis
    unfolding cue_example by (simp add: text_of_units_of)
qed

lemma extractRemNoteCues_line_separator:
  "extractRemNoteCues (units_of ''q::w'' @ [8232] @ units_of ''a::b'')
     = [units_of ''q::w'', units_of ''a::b'']"
  by (simp add: cue_eval)

lemma extractRemNoteCues_carriage_return:
  "extractRemNoteCues (units_of ''q::w'' @ [13] @ units_of ''a::b'')
     = [units_of ''q::w'', units_of ''a::b'']"
  by (simp add: cue_eval)

lemma extractRemNoteCues_crlf:
  "extractRemNoteCues (units_of ''q::w'' @ [13, 10] @ units_of ''a::b'')
     = [units_of ''q::w'' @ [13], units_of ''a::b'']"
  by (simp add: cue_eval)

lemma tidy_lines_plain:
  "\<forall>l \<in> set (split_units content). tidy_line l \<Longrightarrow> plain_lines content"
  by (simp add: plain_lines_def)

lemma cue_line_returned:
  assumes l: "l \<in> set (split_units content)" and cue: "is_cue_line l"
  shows "l \<in> set (extractRemNoteCues content)"
proof -
  from cue have shape: "cue_shape l" and plain: "\<not> str_includes l [EQUALS, EQUALS]"
    by (simp_all add: is_cue_line_def includes_iff)
  have "l \<in> set (cue_scan True l)"
    unfolding cue_scan_cue_line [OF shape split_units_no_feed [OF l]] by simp
  with l have "l \<in> set (cue_scan True content)"
    unfolding cue_scan_all_lines [of content] by auto
  with plain show ?thesis by (simp add: extractRemNoteCues_def)
qed

text \<open>
  C4, as the specification states it, fails in both directions: the line \<open>::b\<close> has an
  empty prefix and is returned, and the line \<open>a:b::c\<close> has a non-empty prefix, one double
  colon and a non-empty suffix and is not returned, because of its single colon.
\<close>

theorem cue_extraction_counterexample:
  "extractRemNoteCues (units_of ''::b'') = [units_of ''::b''] \<and> \<not> cue_line_spec (units_of ''::b'')
   \<and> extractRemNoteCues (units_of ''a:b::c'') = [] \<and> cue_line_spec (units_of ''a:b::c'')"
proof (intro conjI)
  show "extractRemNoteCues (units_of ''::b'') = [units_of ''::b'']" by (simp add: cue_eval)
  show "extractRemNoteCues (units_of ''a:b::c'') = []" by (simp add: cue_eval)
  show "\<not> cue_line_spec (units_of ''::b'')"
  proof
    assume "cue_line_spec (units_of ''::b'')"
    then obtain pre suf where eq: "units_of ''::b'' = pre @ [COLON, COLON] @ suf"
      and "pre \<noteq> []" "suf \<noteq> []"
      unfolding cue_line_spec_def by blast
    then have "1 \<le> length pre" "1 \<le> length suf" by (simp_all add: Suc_le_eq)
    moreover from eq have "length (units_of ''::b'') = length (pre @ [COLON, COLON] @ suf)"
      by (rule arg_cong)
    ultimately show False by (simp add: units_of_def)
  qed
  show "cue_line_spec (units_of ''a:b::c'')"
  proof -
    have a: "\<not> str_includes (units_of ''a:b'') [COLON, COLON]" by (simp add: cue_eval)
    have b: "\<not> str_includes (units_of ''c'') [COLON, COLON]" by (simp add: cue_eval)
    have c: "\<not> str_includes (units_of ''a:b::c'') [EQUALS, EQUALS]" by (simp add: cue_eval)
    have "units_of ''a:b::c'' = units_of ''a:b'' @ [COLON, COLON] @ units_of ''c''"
      by (simp add: cue_eval)
    moreover have "units_of ''a:b'' \<noteq> []" "units_of ''c'' \<noteq> []"
      by (simp_all add: units_of_def)
    ultimately show ?thesis
      using a b c unfolding cue_line_spec_def includes_iff by blast
  qed
qed

text \<open>
  C4, amended. Cue-line extraction returns every line of the content that consists of a
  prefix without any colon, which may be empty, a double colon and a non-empty suffix
  without any colon, and that holds no highlight delimiter. It returns exactly these lines,
  in their order, when every line in which a carriage return, U+2028 or U+2029 occurs before
  the last code unit is itself such a line or holds no double colon; a content whose lines
  end with line feed, or with carriage return and line feed, is of this kind. In particular
  \<open>What is X::It is Y\<close> yields the prompt \<open>What is X\<close>, behind the context, and the answer
  \<open>It is Y\<close>, while \<open>a::b::c\<close> is excluded.
\<close>

theorem extractRemNoteCues_lines:
  "(\<forall>l \<in> set (split_units content). is_cue_line l \<longrightarrow> l \<in> set (extractRemNoteCues content))
   \<and> (plain_lines content \<longrightarrow>
        extractRemNoteCues content = filter is_cue_line (split_units content))
   \<and> generateContextualQACards
        (map text_of (extractRemNoteCues (units_of ''What is X::It is Y'')))
        ''What is X::It is Y'' (Some ''note'')
       = [\<lparr>qtype = ShortAnswer, question = ''note.md\<newline> What is X'', answer = ''It is Y'',
           options = None, explanation = None, clozeText = None\<rparr>]
   \<and> extractRemNoteCues (units_of ''a::b::c'') = []"
proof -
  have "extractRemNoteCues content = filter is_cue_line (split_units content)"
    if "plain_lines content"
    unfolding extractRemNoteCues_def cue_scan_lines [OF that] filter_filter is_cue_line_def
      includes_iff
    by (rule filter_cong) auto
  then show ?thesis
    using cue_card_example cue_two_separators_example cue_line_returned by blast
qed

theorem extractRemNoteCues_lines_witness:
  "plain_lines (units_of ''What is X::It is Y'' @ [13, 10] @ units_of ''a::b::c'' @ [13, 10]
      @ units_of ''::b'')
   \<and> filter is_cue_line
       (split_units (units_of ''What is X::It is Y'' @ [13, 10] @ units_of ''a::b::c'' @ [13, 10]
          @ units_of ''::b''))
     = [units_of ''What is X::It is Y'' @ [13], units_of ''::b'']
   \<and> is_cue_line (units_of ''::b'')"
proof -
  let ?content = "units_of ''What is X::It is Y'' @ [13, 10] @ units_of ''a::b::c'' @ [13, 10]
      @ units_of ''::b''"
  have ls: "split_units ?content
      = [units_of ''What is X::It is Y'' @ [13], units_of ''a::b::c'' @ [13], units_of ''::b'']"
    by (simp add: cue_eval)
  have tidy: "tidy_line (units_of ''What is X::It is Y'' @ [13])"
    "tidy_line (units_of ''a::b::c'' @ [13])" "tidy_line (units_of ''::b'')"
    by (simp_all add: tidy_line_def cue_eval)
  have plain: "plain_lines ?content"
    unfolding plain_lines_def ls using tidy by simp
  have ex: "extractRemNoteCues ?content = [units_of ''What is X::It is Y'' @ [13], units_of ''::b'']"
    by (simp add: cue_eval)
  note inst = extractRemNoteCues_lines [of ?content]
  from inst plain have eq: "extractRemNoteCues ?content = filter is_cue_line (split_units ?content)"
    by blast
  have mem: "units_of ''::b'' \<in> set (split_units ?content)"
    unfolding ls by simp
  have "units_of ''::b'' \<in> set (extractRemNoteCues ?content)"
    unfolding ex by simp
  then have "is_cue_line (units_of ''::b'')"
    unfolding eq by simp
  with plain eq ex show ?thesis by simp
qed

section \<open>Cloze cards: the claim\<close>

lemma count_skip:
  "p \<notin> set A \<Longrightarrow> count_occurrences (p # ps) (A @ B) = count_occurrences (p # ps) B"
  by (induction A) auto

lemma count_none: "p \<notin> set B \<Longrightarrow> count_occurrences (p # ps) B = 0"
  using count_skip [of p B ps "[]"] by simp

lemma count_marker:
  assumes "CHR ''{'' \<notin> set A" and "CHR ''{'' \<notin> set T"
  shows "count_occurrences ''{{c'' (A @ ''{{c1::'' @ T) = 1"
    and "count_occurrences ''{{c1::'' (A @ ''{{c1::'' @ T) = 1"
proof -
  have "count_occurrences ''{{c'' (''{{c1::'' @ T) = 1"
    using count_none [OF assms(2), of "''{c''"] by simp
  then show "count_occurrences ''{{c'' (A @ ''{{c1::'' @ T) = 1"
    using count_skip [OF assms(1), of "''{c''" "''{{c1::'' @ T"] by simp
  have "startsWith (''{{c1::'' @ T) ''{{c1::''"
    unfolding startsWith_iff by blast
  then have "count_occurrences ''{{c1::'' (''{{c1::'' @ T) = 1"
    using count_none [OF assms(2), of "''{c1::''"] by simp
  then show "count_occurrences ''{{c1::'' (A @ ''{{c1::'' @ T) = 1"
    using count_skip [OF assms(1), of "''{c1::''" "''{{c1::'' @ T"] by simp
qed

lemma remove_markers_chars: "set (remove_markers h) \<subseteq> set h"
  by (induction h rule: remove_markers.induct) auto

lemma expand_replacement_chars:
  assumes "x \<noteq> CHR ''$''" "x \<notin> set matched" "x \<notin> set lead" "x \<notin> set rest"
  shows "x \<notin> set template \<Longrightarrow> x \<notin> set (expand_replacement matched lead rest template)"
  using assms
  by (induction matched lead rest template rule: expand_replacement.induct) auto

lemma expand_replacement_plain:
  "c \<noteq> CHR ''$'' \<Longrightarrow>
     expand_replacement matched lead rest (c # t) = c # expand_replacement matched lead rest t"
  by (cases t) auto

lemma expand_replacement_marker:
  "expand_replacement matched lead rest (''{{c1::'' @ t)
     = ''{{c1::'' @ expand_replacement matched lead rest t"
  by (simp add: expand_replacement_plain)

lemma replace_first_found:
  "str_includes s pat \<Longrightarrow>
     \<exists>lead rest. s = lead @ pat @ rest \<and>
       replace_first acc s pat repl =
         rev acc @ lead @ expand_replacement pat (rev acc @ lead) rest repl @ rest"
proof (induction s arbitrary: acc)
  case Nil
  then have "pat = []" by simp
  then have "[] = [] @ pat @ [] \<and> replace_first acc [] pat repl =
         rev acc @ [] @ expand_replacement pat (rev acc @ []) [] repl @ []"
    by simp
  then show ?case by blast
next
  case (Cons c cs)
  show ?case
  proof (cases "startsWith (c # cs) pat")
    case True
    then obtain rest where eq: "c # cs = pat @ rest" unfolding startsWith_iff by blast
    then have dr: "drop (length pat) (c # cs) = rest" by simp
    have rf: "replace_first acc (c # cs) pat repl =
        rev acc @ expand_replacement pat (rev acc) (drop (length pat) (c # cs)) repl
        @ drop (length pat) (c # cs)"
      using True by simp
    have a: "c # cs = [] @ pat @ rest" using eq by simp
    have b: "replace_first acc (c # cs) pat repl =
         rev acc @ [] @ expand_replacement pat (rev acc @ []) rest repl @ rest"
      unfolding rf dr by simp
    from a b show ?thesis by blast
  next
    case False
    with Cons.prems have "str_includes cs pat" by simp
    from Cons.IH [OF this, of "c # acc"] obtain lead rest where
      "cs = lead @ pat @ rest"
      "replace_first (c # acc) cs pat repl =
         rev (c # acc) @ lead @ expand_replacement pat (rev (c # acc) @ lead) rest repl @ rest"
      by blast
    with False have "c # cs = (c # lead) @ pat @ rest \<and> replace_first acc (c # cs) pat repl =
         rev acc @ (c # lead) @ expand_replacement pat (rev acc @ (c # lead)) rest repl @ rest"
      by simp
    then show ?thesis by blast
  qed
qed

lemma find_target_sound:
  "find_target ls t acc = Some (e, l) \<Longrightarrow>
     l \<in> set ls \<and> str_includes l t \<and> set e \<subseteq> set ls \<union> set acc"
proof (induction ls arbitrary: acc)
  case Nil
  then show ?case by simp
next
  case (Cons a ls)
  show ?case
  proof (cases "str_includes a t")
    case True
    with Cons.prems show ?thesis by auto
  next
    case False
    with Cons.prems have "find_target ls t (a # acc) = Some (e, l)" by simp
    from Cons.IH [OF this] show ?thesis by auto
  qed
qed

lemma split_lines_nonempty: "split_lines s \<noteq> []"
  by (induction s) (auto split: list.splits)

lemma split_lines_chars: "l \<in> set (split_lines s) \<Longrightarrow> set l \<subseteq> set s"
proof (induction s arbitrary: l)
  case Nil
  then show ?case by simp
next
  case (Cons c cs)
  show ?case
  proof (cases "c = LF")
    case True
    with Cons show ?thesis by auto
  next
    case False
    obtain l0 ls where sp: "split_lines cs = l0 # ls"
      using split_lines_nonempty [of cs] by (cases "split_lines cs") auto
    with False Cons.prems have "l = c # l0 \<or> l \<in> set ls" by simp
    then show ?thesis
    proof
      assume "l = c # l0"
      moreover have "set l0 \<subseteq> set cs" using Cons.IH [of l0] sp by simp
      ultimately show ?thesis by auto
    next
      assume "l \<in> set ls"
      then have "set l \<subseteq> set cs" using Cons.IH [of l] sp by simp
      then show ?thesis by auto
    qed
  qed
qed

lemma trim_chars: "set (trim l) \<subseteq> set l"
proof -
  have "set (dropWhile is_space_char (rev (dropWhile is_space_char l))) \<subseteq> set (rev (dropWhile is_space_char l))"
    by (meson set_dropWhileD subsetI)
  moreover have "set (dropWhile is_space_char l) \<subseteq> set l"
    by (meson set_dropWhileD subsetI)
  ultimately show ?thesis unfolding trim_def by auto
qed

lemma header_regex_chars:
  assumes "header_regex line = Some cap"
  shows "set cap \<subseteq> set line"
proof -
  from first_some_origin [OF assms [unfolded header_regex_def]] obtain k where
    "(let r = drop k line
      in first_some
           (\<lambda>j. let cap = drop j r
                in if cap \<noteq> [] \<and> list_all (\<lambda>c. \<not> is_line_terminator c) cap
                   then Some cap else None)
           (countdown 1 (run_length is_space_char r))) = Some cap"
    by blast
  then have "first_some
           (\<lambda>j. let cap = drop j (drop k line)
                in if cap \<noteq> [] \<and> list_all (\<lambda>c. \<not> is_line_terminator c) cap
                   then Some cap else None)
           (countdown 1 (run_length is_space_char (drop k line))) = Some cap"
    unfolding Let_def .
  from first_some_origin [OF this] obtain j where
    "(let cap = drop j (drop k line)
      in if cap \<noteq> [] \<and> list_all (\<lambda>c. \<not> is_line_terminator c) cap
         then Some cap else None) = Some cap"
    by blast
  then have "cap = drop j (drop k line)"
    by (simp add: Let_def split: if_splits)
  then show ?thesis
    by (metis set_drop_subset subset_trans)
qed

lemma getMostRelevantHeader_chars:
  assumes "getMostRelevantHeader content target = Some h"
  shows "set h \<subseteq> set content"
proof -
  from assms obtain e l where ft: "find_target (split_lines content) target [] = Some (e, l)"
    and fs: "first_some
            (\<lambda>l'. let line = trim l'
                  in if startsWith line ''#'' then header_regex line else None) e = Some h"
    unfolding getMostRelevantHeader_def by (auto split: option.splits)
  from first_some_origin [OF fs] obtain l' where l': "l' \<in> set e"
    and hr: "header_regex (trim l') = Some h"
    by (auto simp: Let_def split: if_splits)
  from find_target_sound [OF ft] l' have "l' \<in> set (split_lines content)" by auto
  then have "set l' \<subseteq> set content" by (rule split_lines_chars)
  with header_regex_chars [OF hr] trim_chars [of l'] show ?thesis by blast
qed

lemma count_append_le: "count_occurrences pat B \<le> count_occurrences pat (A @ B)"
  by (induction A) auto

lemma count_present: "1 \<le> count_occurrences (p # ps) (A @ (p # ps) @ T)"
proof -
  have "startsWith ((p # ps) @ T) (p # ps)"
    unfolding startsWith_iff by blast
  then have "1 \<le> count_occurrences (p # ps) ((p # ps) @ T)"
    by simp
  with count_append_le [of "p # ps" "(p # ps) @ T" A] show ?thesis by simp
qed

lemma context_string_braces:
  assumes "brace_free filename" and "\<And>header. relevantHeader = Some header \<Longrightarrow> brace_free header"
  shows "CHR ''{'' \<notin> set (context_string filename relevantHeader)"
proof (cases relevantHeader)
  case None
  with assms(1) show ?thesis by (simp add: context_string_def truthy_text_def brace_free_def)
next
  case (Some header)
  with assms show ?thesis by (simp add: context_string_def truthy_text_def brace_free_def)
qed

lemma cloze_card_marker:
  assumes qz: "cloze_card content file h = Some qz"
  shows "qtype qz = Cloze \<and> clozeText qz = Some (question qz)
    \<and> (\<exists>A T. question qz = A @ ''{{c1::'' @ T
          \<and> (list_all brace_free (card_sources content file h)
               \<longrightarrow> CHR ''{'' \<notin> set A \<and> CHR ''{'' \<notin> set T))"
proof -
  let ?ctx = "context_string (generateFilenameDisplay file) (getMostRelevantHeader content h)"
  let ?repl = "''{{c1::'' @ remove_markers h @ ''}}''"
  from qz obtain e line where ft: "find_target (split_lines content) h [] = Some (e, line)"
    and c: "qz = \<lparr>qtype = Cloze,
        question = ?ctx @ ''\<newline> '' @ replace_first [] line h ?repl,
        answer = remove_markers h, options = None, explanation = None,
        clozeText = Some (?ctx @ ''\<newline> '' @ replace_first [] line h ?repl)\<rparr>"
    unfolding cloze_card_def Let_def by (auto split: option.splits)
  from find_target_sound [OF ft] have inc: "str_includes line h" by auto
  from replace_first_found [OF inc, of "[]" ?repl] obtain lead rest where
    eq: "line = lead @ h @ rest" and
    rf: "replace_first [] line h ?repl = lead @ expand_replacement h lead rest ?repl @ rest"
    by auto
  let ?E = "expand_replacement h lead rest (remove_markers h @ ''}}'')"
  have ex: "expand_replacement h lead rest ?repl = ''{{c1::'' @ ?E"
    by (rule expand_replacement_marker)
  let ?A = "?ctx @ ''\<newline> '' @ lead"
  let ?T = "?E @ rest"
  have qeq: "question qz = ?A @ ''{{c1::'' @ ?T"
    unfolding c rf ex by simp
  have clean: "CHR ''{'' \<notin> set ?A \<and> CHR ''{'' \<notin> set ?T"
    if src: "list_all brace_free (card_sources content file h)"
  proof -
    from src ft have nl: "CHR ''{'' \<notin> set line" and nf: "brace_free (generateFilenameDisplay file)"
      and nh: "\<And>header. getMostRelevantHeader content h = Some header \<Longrightarrow> brace_free header"
      by (auto simp: card_sources_def brace_free_def)
    from nl eq have parts: "CHR ''{'' \<notin> set lead" "CHR ''{'' \<notin> set h" "CHR ''{'' \<notin> set rest"
      by auto
    from parts(2) remove_markers_chars [of h] have "CHR ''{'' \<notin> set (remove_markers h)"
      by blast
    then have "CHR ''{'' \<notin> set (remove_markers h @ ''}}'')" by simp
    then have "CHR ''{'' \<notin> set ?E"
      by (rule expand_replacement_chars [rotated 4]) (use parts in simp_all)
    moreover have "CHR ''{'' \<notin> set ?ctx"
      by (rule context_string_braces [OF nf nh])
    ultimately show ?thesis using parts by simp
  qed
  have "qtype qz = Cloze" "clozeText qz = Some (question qz)"
    unfolding c by simp_all
  with qeq clean show ?thesis by blast
qed

lemma map_filter_member_iff:
  "y \<in> set (List.map_filter f xs) \<longleftrightarrow> (\<exists>x \<in> set xs. f x = Some y)"
  by (auto simp: List.map_filter_def intro: rev_image_eqI)

lemma card_sources_of_content:
  assumes "CHR ''{'' \<notin> set content" and "CHR ''{'' \<notin> set (generateFilenameDisplay file)"
  shows "list_all brace_free (card_sources content file h)"
proof (cases "find_target (split_lines content) h []")
  case None
  then show ?thesis by (simp add: card_sources_def)
next
  case (Some p)
  obtain e line where p: "p = (e, line)" by (cases p)
  from find_target_sound [OF Some [unfolded p]] have "line \<in> set (split_lines content)" by simp
  from split_lines_chars [OF this] assms(1) have line: "brace_free line"
    unfolding brace_free_def by blast
  have "brace_free header" if "getMostRelevantHeader content h = Some header" for header
    using getMostRelevantHeader_chars [OF that] assms(1) unfolding brace_free_def by blast
  with line assms(2) Some p show ?thesis
    by (auto simp: card_sources_def brace_free_def split: option.splits)
qed

lemma braces_cloze_cards:
  "generateContextualClozeCards ''S = {1, 2} is a set\<newline>the ==wheel== turns''
     [''==wheel==''] (Some ''note'')
   = [braces_cloze_card]"
  by code_simp

lemma braces_card_sources:
  "card_sources ''S = {1, 2} is a set\<newline>the ==wheel== turns'' (Some ''note'') ''==wheel==''
     = [''the ==wheel== turns'', ''note.md'']"
  by code_simp

lemma demo_cloze_cards:
  "generateContextualClozeCards ''## Defs\<newline>\<newline>a ==wheel== turns''
     [''==wheel==''] (Some ''note'')
   = [demo_cloze_card]"
  by code_simp

text \<open>
  C6, as the specification states it, fails for a document that already holds the text of a
  deletion marker: from the line \<open>{{c1::x}} ==b==\<close> the builder makes a cloze body with
  two deletion markers.
\<close>

theorem cloze_marker_counterexample:
  "map clozeText
     (generateContextualClozeCards ''{{c1::x}} ==b=='' [''==b=='']
        (Some ''note''))
     = [Some ''note.md\<newline> {{c1::x}} {{c1::b}}'']
   \<and> count_occurrences ''{{c'' ''note.md\<newline> {{c1::x}} {{c1::b}}'' = 2"
proof
  show "map clozeText
     (generateContextualClozeCards ''{{c1::x}} ==b=='' [''==b=='']
        (Some ''note''))
     = [Some ''note.md\<newline> {{c1::x}} {{c1::b}}'']"
    by code_simp
  show "count_occurrences ''{{c'' ''note.md\<newline> {{c1::x}} {{c1::b}}'' = 2"
    by code_simp
qed

text \<open>
  C6, amended. For every document and highlight list, every card produced by the card builder
  is a cloze card whose cloze body is present, is the question of the card and contains a
  deletion marker numbered c1; the card is the one of a highlight of the list. When the line
  of that highlight, its heading and the displayed file name hold no opening brace, the
  cloze body contains exactly one cloze deletion marker, the one numbered c1: the numbering
  is per card, not global.
\<close>

theorem cloze_cards_one_marker:
  assumes "qz \<in> set (generateContextualClozeCards content highlights file)"
  shows "qtype qz = Cloze \<and> clozeText qz = Some (question qz)
    \<and> 1 \<le> count_occurrences ''{{c1::'' (question qz)
    \<and> (\<exists>h \<in> set highlights. cloze_card content file h = Some qz)
    \<and> (\<forall>h. cloze_card content file h = Some qz
             \<and> list_all brace_free (card_sources content file h)
           \<longrightarrow> count_occurrences ''{{c'' (question qz) = 1
               \<and> count_occurrences ''{{c1::'' (question qz) = 1)"
proof -
  from assms obtain h0 where h0: "h0 \<in> set highlights" "cloze_card content file h0 = Some qz"
    unfolding generateContextualClozeCards_def map_filter_member_iff by blast
  from cloze_card_marker [OF h0(2)] obtain A T where
    shape: "qtype qz = Cloze" "clozeText qz = Some (question qz)" and
    "question qz = A @ ''{{c1::'' @ T"
    by blast
  then have present: "1 \<le> count_occurrences ''{{c1::'' (question qz)"
    using count_present [of "CHR ''{''" "''{c1::''" A T] by simp
  have one: "count_occurrences ''{{c'' (question qz) = 1
      \<and> count_occurrences ''{{c1::'' (question qz) = 1"
    if "cloze_card content file h = Some qz" "list_all brace_free (card_sources content file h)" for h
  proof -
    from cloze_card_marker [OF that(1)] that(2) obtain A T where
      "question qz = A @ ''{{c1::'' @ T" "CHR ''{'' \<notin> set A" "CHR ''{'' \<notin> set T"
      by blast
    then show ?thesis using count_marker [of A T] by simp
  qed
  from shape present h0 one show ?thesis by blast
qed

theorem cloze_cards_one_marker_witness:
  "braces_cloze_card \<in> set (generateContextualClozeCards
       ''S = {1, 2} is a set\<newline>the ==wheel== turns'' [''==wheel==''] (Some ''note''))
   \<and> cloze_card ''S = {1, 2} is a set\<newline>the ==wheel== turns'' (Some ''note'') ''==wheel==''
       = Some braces_cloze_card
   \<and> list_all brace_free
       (card_sources ''S = {1, 2} is a set\<newline>the ==wheel== turns'' (Some ''note'') ''==wheel=='')
   \<and> qtype braces_cloze_card = Cloze
   \<and> clozeText braces_cloze_card = Some (question braces_cloze_card)
   \<and> count_occurrences ''{{c'' ''note.md\<newline> the {{c1::wheel}} turns'' = 1
   \<and> count_occurrences ''{{c1::'' ''note.md\<newline> the {{c1::wheel}} turns'' = 1"
proof -
  let ?content = "''S = {1, 2} is a set\<newline>the ==wheel== turns''"
  have mem: "braces_cloze_card \<in> set (generateContextualClozeCards ?content [''==wheel==''] (Some ''note''))"
    unfolding braces_cloze_cards by simp
  have card: "cloze_card ?content (Some ''note'') ''==wheel=='' = Some braces_cloze_card"
    by code_simp
  have src: "list_all brace_free (card_sources ?content (Some ''note'') ''==wheel=='')"
    unfolding braces_card_sources by (simp add: brace_free_def)
  have q: "question braces_cloze_card = ''note.md\<newline> the {{c1::wheel}} turns''"
    by (simp add: braces_cloze_card_def)
  note inst = cloze_cards_one_marker [OF mem]
  from inst card src have "count_occurrences ''{{c'' (question braces_cloze_card) = 1
      \<and> count_occurrences ''{{c1::'' (question braces_cloze_card) = 1"
    by blast
  with inst mem card src show ?thesis unfolding q by blast
qed

end
